theory Spec2Isabelle
  imports Main "HOL-Library.Multiset"
begin

section \<open>Errors\<close>

text \<open>
  Modelled from the spec: the error values of the package are declared outside
  \<^verbatim>\<open>jsonpath.go\<close>.  \<open>IoEOF\<close> is Go's \<^verbatim>\<open>io.EOF\<close>; \<open>ErrorEOF\<close>, \<open>ErrorSymbol\<close> and
  \<open>ErrorRequest\<close> are what \<^verbatim>\<open>buf.errorEOF()\<close>, \<^verbatim>\<open>buf.errorSymbol()\<close> and
  \<^verbatim>\<open>errorRequest()\<close> build (the spec's ParseError family); \<open>DocumentError\<close> is a failure
  of the document parser.
\<close>

datatype error = IoEOF | ErrorEOF | ErrorSymbol | ErrorRequest | DocumentError

definition isParseError :: "error \<Rightarrow> bool" where
  "isParseError e = (e = ErrorEOF \<or> e = ErrorSymbol \<or> e = ErrorRequest)"

section \<open>Go standard library functions used by the source\<close>

text \<open>
  Go's \<^verbatim>\<open>int\<close> is 64 bits wide here (the source assigns \<^verbatim>\<open>math.MaxInt64\<close> to an
  \<^verbatim>\<open>int\<close>).  Integers are modelled as \<open>int\<close> with the two's complement wrap-around of
  \<^verbatim>\<open>i += step\<close> written out.
\<close>

definition MaxInt64 :: int where
  "MaxInt64 = 2 ^ 63 - 1"

definition MinInt64 :: int where
  "MinInt64 = - (2 ^ 63)"

definition wrap64 :: "int \<Rightarrow> int" where
  "wrap64 x = (x + 2 ^ 63) mod 2 ^ 64 - 2 ^ 63"

text \<open>\<^verbatim>\<open>strconv.Itoa\<close>: base 10, a leading minus sign for negative numbers.\<close>

function formatDecimal :: "nat \<Rightarrow> string" where
  "formatDecimal n =
     (if n < 10 then [''0123456789'' ! n]
      else formatDecimal (n div 10) @ [''0123456789'' ! (n mod 10)])"
  by pat_completeness auto
termination
  by (relation "measure id") auto

declare formatDecimal.simps [simp del]

definition Itoa :: "int \<Rightarrow> string" where
  "Itoa i = (if i < 0 then CHR ''-'' # formatDecimal (nat (- i)) else formatDecimal (nat i))"

text \<open>
  \<^verbatim>\<open>strconv.Atoi\<close>: an optional sign, then one or more decimal digits; the value must
  fit a 64-bit \<^verbatim>\<open>int\<close>.  \<open>None\<close> stands for the \<^verbatim>\<open>*NumError\<close> (the source only tests
  it against \<^verbatim>\<open>nil\<close>).
\<close>

definition digitVal :: "char \<Rightarrow> nat option" where
  "digitVal c =
     (let v = (of_char c :: nat) in if 48 \<le> v \<and> v \<le> 57 then Some (v - 48) else None)"

fun parseDecimal :: "nat \<Rightarrow> string \<Rightarrow> nat option" where
  "parseDecimal acc [] = Some acc"
| "parseDecimal acc (c # cs) =
     (case digitVal c of None \<Rightarrow> None | Some d \<Rightarrow> parseDecimal (10 * acc + d) cs)"

definition Atoi :: "string \<Rightarrow> int option" where
  "Atoi s =
     (let neg = (case s of [] \<Rightarrow> False | c # cs \<Rightarrow> c = CHR ''-'');
          ds = (case s of [] \<Rightarrow> [] | c # cs \<Rightarrow> if c = CHR ''-'' \<or> c = CHR ''+'' then cs else s)
      in if ds = [] then None
         else (case parseDecimal 0 ds of
                 None \<Rightarrow> None
               | Some n \<Rightarrow>
                   (let v = (if neg then - int n else int n)
                    in if MinInt64 \<le> v \<and> v \<le> MaxInt64 then Some v else None)))"

text \<open>
  \<^verbatim>\<open>strings.Split\<close>, \<^verbatim>\<open>strings.Contains\<close> and \<^verbatim>\<open>strings.HasPrefix\<close>.  The source
  only splits on and searches for the one-byte separators \<^verbatim>\<open>":"\<close> and \<^verbatim>\<open>","\<close>, so the
  separator is a single character.  Splitting a string with \<open>n\<close> separators gives
  \<open>n + 1\<close> fields.
\<close>

fun Split :: "string \<Rightarrow> char \<Rightarrow> string list" where
  "Split [] sep = [[]]"
| "Split (c # cs) sep =
     (if c = sep then [] # Split cs sep
      else (case Split cs sep of [] \<Rightarrow> [[c]] | w # ws \<Rightarrow> (c # w) # ws))"

definition Contains :: "string \<Rightarrow> char \<Rightarrow> bool" where
  "Contains s sep = (sep \<in> set s)"

definition HasPrefix :: "string \<Rightarrow> string \<Rightarrow> bool" where
  "HasPrefix s p = (take (length p) s = p)"

section \<open>The node tree\<close>

text \<open>
  Modelled from the spec: the type \<^verbatim>\<open>Node\<close> and its methods \<^verbatim>\<open>isContainer\<close>,
  \<^verbatim>\<open>IsArray\<close>, \<^verbatim>\<open>inheritors\<close> and the field \<^verbatim>\<open>children\<close> are declared outside
  \<^verbatim>\<open>jsonpath.go\<close>.  A node has a kind (object, array, scalar).  A container maps string
  keys to its children; an array stores its children under the stringified, zero-based,
  contiguous indices \<^verbatim>\<open>"0"\<close>, \<^verbatim>\<open>"1"\<close>, ...; \<^verbatim>\<open>inheritors\<close> lists the direct children in
  natural order (key insertion order for an object, ascending index for an array).
  An object is an association list in insertion order (its keys are distinct in a
  well-formed tree); \<open>'v\<close> is the payload of a scalar.
\<close>

datatype 'v Node = Scalar 'v | Array "'v Node list" | Object "(string \<times> 'v Node) list"

fun isContainer :: "'v Node \<Rightarrow> bool" where
  "isContainer (Scalar v) = False"
| "isContainer (Array xs) = True"
| "isContainer (Object kvs) = True"

fun IsArray :: "'v Node \<Rightarrow> bool" where
  "IsArray (Scalar v) = False"
| "IsArray (Array xs) = True"
| "IsArray (Object kvs) = False"

fun inheritors :: "'v Node \<Rightarrow> 'v Node list" where
  "inheritors (Scalar v) = []"
| "inheritors (Array xs) = xs"
| "inheritors (Object kvs) = map snd kvs"

fun children :: "'v Node \<Rightarrow> string \<Rightarrow> 'v Node option" where
  "children (Scalar v) key = None"
| "children (Array xs) key = map_of (zip (map (\<lambda>k. Itoa (int k)) [0..<length xs]) xs) key"
| "children (Object kvs) key = map_of kvs key"

section \<open>Recursive descent: \<^verbatim>\<open>recursiveChildren\<close>\<close>

lemma size_inheritors:
  assumes "e \<in> set (inheritors node)"
  shows "size e < size node"
proof (cases node)
  case (Scalar v)
  with assms show ?thesis by simp
next
  case (Array xs)
  with assms have "e \<in> set xs" by simp
  then have "size e \<le> size_list size xs"
    by (rule size_list_estimation') simp
  with Array show ?thesis by simp
next
  case (Object kvs)
  with assms obtain k where "(k, e) \<in> set kvs" by auto
  then have "size e \<le> size_list (size_prod (\<lambda>x. 0) size) kvs"
    by (rule size_list_estimation') simp
  with Object show ?thesis by simp
qed

lemma set_foldl_keep:
  "set (foldl (\<lambda>r e. if P e then r @ [e] else r) acc xs) = set acc \<union> {e \<in> set xs. P e}"
  by (induction xs arbitrary: acc) auto

text \<open>
  The first loop collects the direct container children, \<^verbatim>\<open>temp\<close> starts as a copy of
  them, and the second loop appends the list of each of them in turn.  The recursion
  follows the tree, which is finite.
\<close>

function recursiveChildren :: "'v Node \<Rightarrow> 'v Node list" where
  "recursiveChildren node =
     (let result = (if isContainer node
                    then foldl (\<lambda>result element.
                                  if isContainer element then result @ [element] else result)
                           [] (inheritors node)
                    else []);
          temp = [] @ result
      in foldl (\<lambda>temp element. temp @ recursiveChildren element) temp result)"
  by pat_completeness auto
termination
  by (relation "measure size") (auto simp: set_foldl_keep size_inheritors split: if_splits)

declare recursiveChildren.simps [simp del]

section \<open>The cursor over the path's bytes\<close>

text \<open>
  Modelled from the spec: the type \<^verbatim>\<open>buffer\<close>, its methods and the byte constants are
  declared outside \<^verbatim>\<open>jsonpath.go\<close>.  The tokenizer "operates over a cursor with
  peek/advance/scan-until-delimiter primitives over the path string's bytes".  The
  cursor holds the bytes, their number and the current position (the three fields the
  source reads: \<^verbatim>\<open>buf.data\<close>, \<^verbatim>\<open>buf.length\<close>, \<^verbatim>\<open>buf.index\<close>).
  \<^item> \<open>buffer_current\<close> peeks: the byte at the position, \<^verbatim>\<open>io.EOF\<close> past the end;
  \<^item> \<open>buffer_step\<close> advances by one byte, and fails with \<^verbatim>\<open>io.EOF\<close>, leaving the
    position where it is, when there is no next byte;
  \<^item> \<open>buffer_next\<close> advances and peeks;
  \<^item> \<open>buffer_skip\<close> and \<open>buffer_skipAny\<close> scan forward from the current byte up to the
    first delimiter (the position stops on it), \<^verbatim>\<open>io.EOF\<close> with the position at the
    end when there is none;
  \<^item> \<open>buffer_string\<close>, called on the opening quote, scans to the closing quote (the
    position stops on it); a missing closing quote is an error.
  The grammar surface of the spec gives the bytes: \<^verbatim>\<open>$\<close>, \<^verbatim>\<open>.\<close>, \<^verbatim>\<open>[\<close>, \<^verbatim>\<open>]\<close> and the
  quote of \<^verbatim>\<open>['key']\<close>.
\<close>

record buffer =
  data :: string
  length_b :: nat
  index :: nat

definition dollar :: char where "dollar = CHR ''$''"
definition dot :: char where "dot = CHR ''.''"
definition bracketL :: char where "bracketL = CHR ''[''"
definition bracketR :: char where "bracketR = CHR '']''"
definition quote :: char where "quote = CHR 0x27"

definition newBuffer :: "string \<Rightarrow> buffer" where
  "newBuffer body = \<lparr>data = body, length_b = length body, index = 0\<rparr>"

definition buffer_current :: "buffer \<Rightarrow> error + char" where
  "buffer_current b = (if index b < length_b b then Inr (data b ! index b) else Inl IoEOF)"

definition buffer_step :: "buffer \<Rightarrow> buffer \<times> error option" where
  "buffer_step b =
     (if index b + 1 < length_b b then (b\<lparr>index := index b + 1\<rparr>, None)
      else (b, Some IoEOF))"

definition buffer_next :: "buffer \<Rightarrow> buffer \<times> (error + char)" where
  "buffer_next b =
     (case buffer_step b of
        (b', Some e) \<Rightarrow> (b', Inl e)
      | (b', None) \<Rightarrow> (b', Inr (data b' ! index b')))"

function buffer_skipAny :: "buffer \<Rightarrow> (char \<Rightarrow> bool) \<Rightarrow> buffer \<times> error option" where
  "buffer_skipAny b s =
     (if index b < length_b b
      then (if s (data b ! index b) then (b, None)
            else buffer_skipAny (b\<lparr>index := index b + 1\<rparr>) s)
      else (b, Some IoEOF))"
  by pat_completeness auto
termination
  by (relation "measure (\<lambda>(b, s). length_b b - index b)") auto

declare buffer_skipAny.simps [simp del]

definition buffer_skip :: "buffer \<Rightarrow> char \<Rightarrow> buffer \<times> error option" where
  "buffer_skip b s = buffer_skipAny b (\<lambda>c. c = s)"

definition buffer_string :: "buffer \<Rightarrow> char \<Rightarrow> buffer \<times> error option" where
  "buffer_string b search =
     (case buffer_step b of
        (b', Some e) \<Rightarrow> (b', Some e)
      | (b', None) \<Rightarrow> buffer_skip b' search)"

section \<open>The tokenizer: \<^verbatim>\<open>ParseJSONPath\<close>\<close>

text \<open>
  One pass of the \<^verbatim>\<open>for\<close> loop either returns from the function or goes on with the
  cursor and the commands found so far.  A \<^verbatim>\<open>break\<close> inside the \<^verbatim>\<open>switch\<close> leaves the
  \<^verbatim>\<open>switch\<close> only, so those paths go on to \<^verbatim>\<open>buf.step()\<close>, which overwrites
  \<^verbatim>\<open>err\<close>.  On an error the source returns the commands found so far beside the error;
  its only caller drops them, and the model returns the error alone.
  The two \<^verbatim>\<open>buf.index--\<close> follow a successful \<open>buffer_next\<close>, after which the position
  is at least 1.
\<close>

datatype parseFlow = Return "error + string list" | Continue buffer "string list"

definition childEnd :: "char \<Rightarrow> bool" where
  "childEnd c = (c = dot \<or> c = bracketL)"

definition sliceBytes :: "buffer \<Rightarrow> nat \<Rightarrow> nat \<Rightarrow> string" where
  "sliceBytes buf start stop = take (stop - start) (drop start (data buf))"

definition parseDot :: "buffer \<Rightarrow> string list \<Rightarrow> parseFlow" where
  "parseDot buf result =
     (let start = index buf in
      case buffer_next buf of
        (buf1, Inl e) \<Rightarrow> Continue buf1 result
      | (buf1, Inr b) \<Rightarrow>
          if b = dot then Continue (buf1\<lparr>index := index buf1 - 1\<rparr>) (result @ [''..''])
          else (case buffer_skipAny buf1 childEnd of
                  (buf2, Some e) \<Rightarrow>
                    if e = IoEOF
                    then (let stop = length_b buf2
                          in Continue buf2
                               (if start + 1 < stop
                                then result @ [sliceBytes buf2 (start + 1) stop]
                                else result))
                    else Continue (buf2\<lparr>index := index buf2 - 1\<rparr>) result
                | (buf2, None) \<Rightarrow>
                    (let stop = index buf2
                     in Continue (buf2\<lparr>index := index buf2 - 1\<rparr>)
                          (if start + 1 < stop
                           then result @ [sliceBytes buf2 (start + 1) stop]
                           else result))))"

definition parseBracket :: "buffer \<Rightarrow> string list \<Rightarrow> parseFlow" where
  "parseBracket buf result =
     (case buffer_next buf of
        (buf1, Inl e) \<Rightarrow> Return (Inl ErrorEOF)
      | (buf1, Inr b) \<Rightarrow>
          (let start = index buf1 in
           if b = quote
           then (let start = start + 1 in
                 case buffer_string buf1 quote of
                   (buf2, Some e) \<Rightarrow> Return (Inl ErrorEOF)
                 | (buf2, None) \<Rightarrow>
                     (let stop = index buf2 in
                      case buffer_next buf2 of
                        (buf3, Inl e) \<Rightarrow> Return (Inl ErrorEOF)
                      | (buf3, Inr b3) \<Rightarrow>
                          if b3 \<noteq> bracketR then Return (Inl ErrorSymbol)
                          else Continue buf3 (result @ [sliceBytes buf3 start stop])))
           else (case buffer_skip buf1 bracketR of
                   (buf2, Some e) \<Rightarrow> Return (Inl ErrorEOF)
                 | (buf2, None) \<Rightarrow>
                     (let stop = index buf2
                      in Continue buf2 (result @ [sliceBytes buf2 start stop])))))"

definition parseSwitch :: "buffer \<Rightarrow> string list \<Rightarrow> char \<Rightarrow> parseFlow" where
  "parseSwitch buf result b =
     (if b = dollar then Continue buf (result @ [''$''])
      else if b = dot then parseDot buf result
      else if b = bracketL then parseBracket buf result
      else Return (Inl ErrorSymbol))"

definition parseIteration :: "buffer \<Rightarrow> string list \<Rightarrow> parseFlow" where
  "parseIteration buf result =
     (case buffer_current buf of
        Inl e \<Rightarrow> Return (Inl e)
      | Inr b \<Rightarrow>
          (case parseSwitch buf result b of
             Return r \<Rightarrow> Return r
           | Continue buf1 result1 \<Rightarrow>
               (case buffer_step buf1 of
                  (buf2, Some e) \<Rightarrow> Return (if e = IoEOF then Inr result1 else Inl e)
                | (buf2, None) \<Rightarrow> Continue buf2 result1)))"

lemma buffer_step_None:
  assumes "buffer_step b = (b', None)"
  shows "index b' = index b + 1" and "length_b b' = length_b b" and "data b' = data b"
    and "index b' < length_b b'"
  using assms by (auto simp: buffer_step_def split: if_splits)

lemma buffer_step_Some:
  assumes "buffer_step b = (b', Some e)"
  shows "b' = b" and "e = IoEOF" and "\<not> index b + 1 < length_b b"
  using assms by (auto simp: buffer_step_def split: if_splits)

lemma buffer_next_Inr:
  assumes "buffer_next b = (b', Inr c)"
  shows "index b' = index b + 1" and "length_b b' = length_b b" and "data b' = data b"
    and "index b' < length_b b'"
  using assms buffer_step_None [of b b']
  by (auto simp: buffer_next_def split: prod.splits option.splits)

lemma buffer_next_Inl:
  assumes "buffer_next b = (b', Inl e)"
  shows "b' = b" and "e = IoEOF"
  using assms buffer_step_Some [of b b']
  by (auto simp: buffer_next_def split: prod.splits option.splits)

lemma buffer_skipAny_index:
  "buffer_skipAny b s = (b', r) \<Longrightarrow>
     index b \<le> index b' \<and> length_b b' = length_b b \<and> data b' = data b"
proof (induction b s rule: buffer_skipAny.induct)
  case (1 b s)
  show ?case
  proof (cases "index b < length_b b \<and> \<not> s (data b ! index b)")
    case True
    with "1.prems" have "buffer_skipAny (b\<lparr>index := index b + 1\<rparr>) s = (b', r)"
      by (simp add: buffer_skipAny.simps [of b])
    with True "1.IH" show ?thesis by fastforce
  next
    case False
    with "1.prems" have "b' = b"
      by (auto simp: buffer_skipAny.simps [of b] split: if_splits)
    then show ?thesis by simp
  qed
qed

lemma buffer_skip_index:
  "buffer_skip b c = (b', r) \<Longrightarrow>
     index b \<le> index b' \<and> length_b b' = length_b b \<and> data b' = data b"
  unfolding buffer_skip_def by (rule buffer_skipAny_index)

lemma buffer_string_index:
  assumes "buffer_string b c = (b', None)"
  shows "index b < index b'" and "length_b b' = length_b b"
proof -
  from assms obtain b1 where s: "buffer_step b = (b1, None)" and k: "buffer_skip b1 c = (b', None)"
    by (auto simp: buffer_string_def split: prod.splits option.splits)
  from buffer_step_None [OF s] buffer_skip_index [OF k]
  show "index b < index b'" and "length_b b' = length_b b" by simp_all
qed

lemma parseDot_index:
  assumes "parseDot buf result = Continue buf' result'"
  shows "index buf \<le> index buf' \<and> length_b buf' = length_b buf"
proof (cases "buffer_next buf")
  case (Pair buf1 r)
  show ?thesis
  proof (cases r)
    case (Inl e)
    with Pair assms buffer_next_Inl [of buf buf1 e] show ?thesis
      by (simp add: parseDot_def)
  next
    case (Inr b)
    note n = buffer_next_Inr [OF Pair [unfolded Inr]]
    show ?thesis
    proof (cases "b = dot")
      case True
      with Pair Inr assms n show ?thesis
        by (auto simp: parseDot_def)
    next
      case False
      obtain buf2 r2 where k: "buffer_skipAny buf1 childEnd = (buf2, r2)"
        by (cases "buffer_skipAny buf1 childEnd")
      from buffer_skipAny_index [OF k] n
      have "index buf + 1 \<le> index buf2" and "length_b buf2 = length_b buf" by simp_all
      with Pair Inr False k assms show ?thesis
        by (auto simp: parseDot_def Let_def split: option.splits if_splits)
    qed
  qed
qed

lemma parseBracket_index:
  assumes "parseBracket buf result = Continue buf' result'"
  shows "index buf \<le> index buf' \<and> length_b buf' = length_b buf"
proof (cases "buffer_next buf")
  case (Pair buf1 r)
  show ?thesis
  proof (cases r)
    case (Inl e)
    with Pair assms show ?thesis by (simp add: parseBracket_def)
  next
    case (Inr b)
    note n = buffer_next_Inr [OF Pair [unfolded Inr]]
    show ?thesis
    proof (cases "b = quote")
      case True
      with Pair Inr assms obtain buf2 b3
        where s: "buffer_string buf1 quote = (buf2, None)"
          and m: "buffer_next buf2 = (buf', Inr b3)"
        by (auto simp: parseBracket_def Let_def
                 split: prod.splits option.splits sum.splits if_splits)
      from buffer_string_index [OF s] buffer_next_Inr [OF m] n show ?thesis by simp
    next
      case False
      with Pair Inr assms have k: "buffer_skip buf1 bracketR = (buf', None)"
        by (auto simp: parseBracket_def Let_def split: prod.splits option.splits)
      from buffer_skip_index [OF k] n show ?thesis by simp
    qed
  qed
qed

lemma parseSwitch_index:
  assumes "parseSwitch buf result b = Continue buf' result'"
  shows "index buf \<le> index buf' \<and> length_b buf' = length_b buf"
  using assms parseDot_index [of buf result buf' result']
    parseBracket_index [of buf result buf' result']
  by (auto simp: parseSwitch_def split: if_splits)

lemma parseIteration_index:
  assumes "parseIteration buf result = Continue buf' result'"
  shows "length_b buf' - index buf' < length_b buf - index buf"
proof -
  from assms obtain b buf1 where sw: "parseSwitch buf result b = Continue buf1 result'"
    and st: "buffer_step buf1 = (buf', None)"
    by (auto simp: parseIteration_def
             split: sum.splits parseFlow.splits prod.splits option.splits)
  from parseSwitch_index [OF sw] buffer_step_None [OF st] show ?thesis by linarith
qed

text \<open>The \<^verbatim>\<open>for\<close> loop: every pass that goes on has moved the cursor forward.\<close>

function parseLoop :: "buffer \<Rightarrow> string list \<Rightarrow> error + string list" where
  "parseLoop buf result =
     (case parseIteration buf result of
        Return r \<Rightarrow> r
      | Continue buf' result' \<Rightarrow> parseLoop buf' result')"
  by pat_completeness auto
termination
  by (relation "measure (\<lambda>(buf, result). length_b buf - index buf)")
     (auto simp: parseIteration_index)

declare parseLoop.simps [simp del]

definition ParseJSONPath :: "string \<Rightarrow> error + string list" where
  "ParseJSONPath path = parseLoop (newBuffer path) []"

section \<open>The evaluator: \<^verbatim>\<open>JSONPath\<close>\<close>

text \<open>
  The inner loop of the slice command,
  \<^verbatim>\<open>for i := from; i < to; i += step\<close>, on one array node.  Nothing in the source
  bounds the number of passes, so the loop is a partial function: \<open>None\<close> is the loop that
  never returns.
\<close>

partial_function (option) sliceLoop ::
  "'v Node \<Rightarrow> int \<Rightarrow> int \<Rightarrow> int \<Rightarrow> 'v Node list \<Rightarrow> 'v Node list option" where
  "sliceLoop element to step i temporary =
     (if i < to
      then (case children element (Itoa i) of
              Some val \<Rightarrow> sliceLoop element to step (wrap64 (i + step)) (temporary @ [val])
            | None \<Rightarrow> Some temporary)
      else Some temporary)"

declare sliceLoop.simps [code]

text \<open>The outer loop of the slice command, over the nodes of the working result.\<close>

fun sliceElements ::
  "int \<Rightarrow> int \<Rightarrow> int \<Rightarrow> 'v Node list \<Rightarrow> 'v Node list \<Rightarrow> 'v Node list option" where
  "sliceElements from to step [] temporary = Some temporary"
| "sliceElements from to step (element # rest) temporary =
     (if IsArray element
      then (case sliceLoop element to step from temporary of
              None \<Rightarrow> None
            | Some temporary' \<Rightarrow> sliceElements from to step rest temporary')
      else sliceElements from to step rest temporary)"

text \<open>
  The slice command.  \<^verbatim>\<open>keys[0]\<close> and \<^verbatim>\<open>keys[1]\<close> exist: the command holds a colon,
  so the split has two fields or more (lemma \<open>Split_Contains\<close> below).
\<close>

definition evalSlice :: "string \<Rightarrow> 'v Node list \<Rightarrow> (error + 'v Node list) option" where
  "evalSlice cmd result =
     (let keys = Split cmd (CHR '':'') in
      if length keys > 3 then Some (Inl ErrorRequest)
      else (case (if keys ! 0 = [] then Some 0 else Atoi (keys ! 0)) of
              None \<Rightarrow> Some (Inl ErrorRequest)
            | Some from \<Rightarrow>
                (case (if keys ! 1 = [] then Some MaxInt64 else Atoi (keys ! 1)) of
                   None \<Rightarrow> Some (Inl ErrorRequest)
                 | Some to \<Rightarrow>
                     (case (if length keys = 3 \<and> keys ! 2 \<noteq> [] then Atoi (keys ! 2)
                            else Some 1) of
                        None \<Rightarrow> Some (Inl ErrorRequest)
                      | Some step \<Rightarrow> map_option Inr (sliceElements from to step result [])))))"

text \<open>The default case: a key or a union of keys.\<close>

definition evalKeys :: "string \<Rightarrow> 'v Node list \<Rightarrow> 'v Node list" where
  "evalKeys cmd result =
     (let keys = Split cmd (CHR '','') in
      foldl (\<lambda>temporary key.
               foldl (\<lambda>temporary element.
                        if isContainer element
                        then (case children element key of
                                Some val \<Rightarrow> temporary @ [val]
                              | None \<Rightarrow> temporary)
                        else temporary)
                 temporary result)
        [] keys)"

text \<open>One pass of \<^verbatim>\<open>for i, cmd := range commands\<close>: the \<^verbatim>\<open>switch\<close>, in its order.\<close>

definition evalCommand ::
  "'v Node \<Rightarrow> nat \<Rightarrow> string \<Rightarrow> 'v Node list \<Rightarrow> (error + 'v Node list) option" where
  "evalCommand root i cmd result =
     (if cmd = ''$'' then Some (Inr (if i = 0 then result @ [root] else result))
      else if cmd = ''..''
      then Some (Inr (result @
             foldl (\<lambda>temporary element. temporary @ recursiveChildren element) [] result))
      else if cmd = ''*''
      then Some (Inr (foldl (\<lambda>temporary element. temporary @ inheritors element) [] result))
      else if Contains cmd (CHR '':'') then evalSlice cmd result
      else if HasPrefix cmd ''?('' then Some (Inr result)
      else Some (Inr (evalKeys cmd result)))"

fun evalCommands ::
  "'v Node \<Rightarrow> nat \<Rightarrow> string list \<Rightarrow> 'v Node list \<Rightarrow> (error + 'v Node list) option" where
  "evalCommands root i [] result = Some (Inr result)"
| "evalCommands root i (cmd # commands) result =
     (case evalCommand root i cmd result of
        None \<Rightarrow> None
      | Some (Inl err) \<Rightarrow> Some (Inl err)
      | Some (Inr result') \<Rightarrow> evalCommands root (Suc i) commands result')"

text \<open>
  \<^verbatim>\<open>JSONPath\<close>.  The document parser \<^verbatim>\<open>Unmarshal\<close> is external to the file and is a
  parameter.  \<open>JSONPath_run\<close> also counts the calls of \<^verbatim>\<open>Unmarshal\<close>, so that a claim can
  say that the document was never parsed; \<open>JSONPath\<close> is what the function returns
  (\<open>Inl\<close> is \<^verbatim>\<open>nil, err\<close>).
\<close>

definition JSONPath_run ::
  "(string \<Rightarrow> error + 'v Node) \<Rightarrow> string \<Rightarrow> string \<Rightarrow> nat \<times> (error + 'v Node list) option"
  where
  "JSONPath_run Unmarshal bytes path =
     (case ParseJSONPath path of
        Inl err \<Rightarrow> (0, Some (Inl err))
      | Inr commands \<Rightarrow>
          (case Unmarshal bytes of
             Inl err \<Rightarrow> (1, Some (Inl err))
           | Inr root \<Rightarrow> (1, evalCommands root 0 commands [])))"

definition JSONPath ::
  "(string \<Rightarrow> error + 'v Node) \<Rightarrow> string \<Rightarrow> string \<Rightarrow> (error + 'v Node list) option" where
  "JSONPath Unmarshal bytes path = snd (JSONPath_run Unmarshal bytes path)"

section \<open>Definitions for the statements\<close>

subsection \<open>Example documents\<close>

text \<open>
  The documents of the spec's examples, as node trees (scalars are integers):
  \<^verbatim>\<open>{"a":{"b":{"price":5},"c":[{"price":7}]}}\<close>, \<^verbatim>\<open>{"a":[10,20,30,40,50]}\<close> and
  \<^verbatim>\<open>{"a":{"x":1,"y":2,"z":3}}\<close>; and a tree on which the order of the recursive descent
  shows, \<^verbatim>\<open>{"a":{"x":{}},"b":[]}\<close>.
\<close>

definition docPrice :: "int Node" where
  "docPrice =
     Object [(''a'', Object [(''b'', Object [(''price'', Scalar 5)]),
                             (''c'', Array [Object [(''price'', Scalar 7)]])])]"

definition docSiblings :: "int Node" where
  "docSiblings = Object [(''a'', Object [(''x'', Object [])]), (''b'', Array [])]"

definition docNumbers :: "int Node" where
  "docNumbers = Object [(''a'', Array [Scalar 10, Scalar 20, Scalar 30, Scalar 40, Scalar 50])]"

definition docXYZ :: "int Node" where
  "docXYZ = Object [(''a'', Object [(''x'', Scalar 1), (''y'', Scalar 2), (''z'', Scalar 3)])]"

subsection \<open>The words of the claims and closed forms of the loops\<close>

text \<open>
  None of the definitions of this subsection is in the source.  They say, without loops
  and accumulators, what the claims say, and the theorems compare them with the embedding
  of the code.
\<close>

text \<open>
  The spec's words, for comparison with the code: "a pre-order traversal restricted to
  container nodes", in which each direct container child is immediately followed by its
  own list, before the next sibling.
\<close>

function preorderContainers :: "'v Node \<Rightarrow> 'v Node list" where
  "preorderContainers node =
     concat (map (\<lambda>child. child # preorderContainers child)
               (filter isContainer (inheritors node)))"
  by pat_completeness auto
termination
  apply (relation "measure size")
   apply simp
  apply (simp add: size_inheritors)
  done

declare preorderContainers.simps [simp del]

text \<open>
  What one node of the working result contributes for one key: its child under that exact
  key, when the node is a container and has one.
\<close>

definition keyMatches :: "string \<Rightarrow> 'v Node \<Rightarrow> 'v Node list" where
  "keyMatches key element =
     (if isContainer element
      then (case children element key of Some val \<Rightarrow> [val] | None \<Rightarrow> [])
      else [])"

text \<open>
  \<open>sliceIndices\<close> is the closed form of the inner loop on an array of \<open>n\<close> elements, in
  unbounded integers: the indices \<open>i\<close>, \<open>i + step\<close>, ... visited while the index is below
  \<open>to\<close> and inside the array.  \<open>sliceOf\<close> is what one node of the working result
  contributes.  \<open>inInt64\<close> is the range of a Go \<^verbatim>\<open>int\<close>.
\<close>

definition inInt64 :: "int \<Rightarrow> bool" where
  "inInt64 x = (MinInt64 \<le> x \<and> x \<le> MaxInt64)"

function sliceIndices :: "int \<Rightarrow> int \<Rightarrow> int \<Rightarrow> nat \<Rightarrow> int list" where
  "sliceIndices i to step n =
     (if step \<noteq> 0 \<and> i < to \<and> 0 \<le> i \<and> i < int n
      then i # sliceIndices (i + step) to step n
      else [])"
  by pat_completeness auto
termination
  by (relation "measure (\<lambda>(i, to, step, n). if 0 < step then nat (int n - i) else nat (i + 1))")
     auto

declare sliceIndices.simps [simp del]

definition sliceOf :: "int \<Rightarrow> int \<Rightarrow> int \<Rightarrow> 'v Node \<Rightarrow> 'v Node list" where
  "sliceOf from to step element =
     (if IsArray element
      then map (\<lambda>k. inheritors element ! nat k)
             (sliceIndices from to step (length (inheritors element)))
      else [])"




text \<open>
  A field of a slice command: its default when it is empty, and what \<^verbatim>\<open>Atoi\<close> reads
  otherwise.  A slice command is malformed when it has more than three fields or a field
  that is not empty and that \<^verbatim>\<open>Atoi\<close> rejects.
\<close>

definition sliceField :: "int \<Rightarrow> string \<Rightarrow> int option" where
  "sliceField dflt field = (if field = [] then Some dflt else Atoi field)"

definition sliceMalformed :: "string \<Rightarrow> bool" where
  "sliceMalformed cmd =
     (let keys = Split cmd (CHR '':'')
      in 3 < length keys \<or> list_ex (\<lambda>field. field \<noteq> [] \<and> Atoi field = None) keys)"

definition malformedCommand :: "string \<Rightarrow> bool" where
  "malformedCommand cmd = (Contains cmd (CHR '':'') \<and> sliceMalformed cmd)"

text \<open>The number a string of digits denotes; a left inverse of \<open>formatDecimal\<close>.\<close>

definition decimalValue :: "string \<Rightarrow> nat" where
  "decimalValue s = foldl (\<lambda>a c. 10 * a + (of_char c - 48)) 0 s"

text \<open>
  A tree whose containers have at most \<open>2^63\<close> children each, as every tree in memory has;
  and a slice command with three fields whose step reads as zero.
\<close>

fun boundedArrays :: "'v Node \<Rightarrow> bool" where
  "boundedArrays (Scalar v) = True"
| "boundedArrays (Array xs) =
     (int (length xs) \<le> MaxInt64 + 1 \<and> (\<forall>x \<in> set xs. boundedArrays x))"
| "boundedArrays (Object kvs) =
     (int (length kvs) \<le> MaxInt64 + 1 \<and> (\<forall>kv \<in> set kvs. boundedArrays (snd kv)))"

definition zeroStep :: "string \<Rightarrow> bool" where
  "zeroStep cmd =
     (case Split cmd (CHR '':'') of
        [f, t, s] \<Rightarrow> sliceField 1 s = Some 0
      | _ \<Rightarrow> False)"

section \<open>Properties of the embedding\<close>

subsection \<open>Loops over lists\<close>

lemma foldl_append_each:
  "foldl (\<lambda>temporary element. temporary @ f element) acc xs = acc @ concat (map f xs)"
  by (induction xs arbitrary: acc) simp_all

lemma foldl_keep_filter:
  "foldl (\<lambda>result element. if P element then result @ [element] else result) acc xs
     = acc @ filter P xs"
  by (induction xs arbitrary: acc) simp_all

lemma foldl_keyMatches:
  "foldl (\<lambda>temporary element.
            if isContainer element
            then (case children element key of
                    Some val \<Rightarrow> temporary @ [val]
                  | None \<Rightarrow> temporary)
            else temporary) acc result
     = acc @ concat (map (keyMatches key) result)"
  by (induction result arbitrary: acc) (auto simp: keyMatches_def split: option.splits)

subsection \<open>Recursive descent\<close>

lemma inheritors_not_container: "\<not> isContainer node \<Longrightarrow> inheritors node = []"
  by (cases node) simp_all

lemma Node_inheritors_induct [case_names inheritors]:
  assumes "\<And>node. (\<And>child. child \<in> set (inheritors node) \<Longrightarrow> P child) \<Longrightarrow> P node"
  shows "P node"
proof (induction node rule: measure_induct_rule [where f = size])
  case (less node)
  show ?case
    by (rule assms) (rule less.IH, rule size_inheritors)
qed

lemma recursiveChildren_eq:
  "recursiveChildren node =
     filter isContainer (inheritors node)
       @ concat (map recursiveChildren (filter isContainer (inheritors node)))"
  by (subst recursiveChildren.simps)
     (simp add: Let_def foldl_append_each foldl_keep_filter inheritors_not_container)

lemma set_recursiveChildren:
  "set (recursiveChildren node) =
     {c \<in> set (inheritors node). isContainer c}
       \<union> (\<Union>c \<in> {c \<in> set (inheritors node). isContainer c}. set (recursiveChildren c))"
  by (subst recursiveChildren_eq) simp

lemma recursiveChildren_containers: "e \<in> set (recursiveChildren node) \<Longrightarrow> isContainer e"
proof (induction node rule: Node_inheritors_induct)
  case (inheritors node)
  from inheritors.prems
  have "e \<in> {c \<in> set (inheritors node). isContainer c}
       \<union> (\<Union>c \<in> {c \<in> set (inheritors node). isContainer c}. set (recursiveChildren c))"
    by (simp only: set_recursiveChildren [of node])
  then show ?case
  proof
    assume "e \<in> {c \<in> set (inheritors node). isContainer c}"
    then show ?thesis by simp
  next
    assume "e \<in> (\<Union>c \<in> {c \<in> set (inheritors node). isContainer c}. set (recursiveChildren c))"
    then obtain c where "c \<in> set (inheritors node)" and "e \<in> set (recursiveChildren c)"
      by blast
    then show ?thesis by (rule inheritors.IH)
  qed
qed

lemma sum_list_single_plus:
  "sum_list (map (\<lambda>c. {#c#} + f c) cs) = mset cs + sum_list (map f cs)"
  by (induction cs) simp_all

lemma mset_recursiveChildren: "mset (recursiveChildren node) = mset (preorderContainers node)"
proof (induction node rule: Node_inheritors_induct)
  case (inheritors node)
  let ?cs = "filter isContainer (inheritors node)"
  have ih: "map (\<lambda>c. mset (recursiveChildren c)) ?cs = map (\<lambda>c. mset (preorderContainers c)) ?cs"
    by (rule map_cong) (simp_all add: inheritors.IH)
  have "mset (recursiveChildren node) = mset ?cs + sum_list (map (\<lambda>c. mset (recursiveChildren c)) ?cs)"
    by (subst recursiveChildren_eq) (simp add: mset_concat comp_def)
  also have "\<dots> = sum_list (map (\<lambda>c. {#c#} + mset (preorderContainers c)) ?cs)"
    by (simp only: ih sum_list_single_plus)
  also have "\<dots> = mset (preorderContainers node)"
    by (subst preorderContainers.simps) (simp add: mset_concat comp_def)
  finally show ?case .
qed

text \<open>
  The defining equations of \<open>recursiveChildren\<close> and \<open>preorderContainers\<close> recurse under a
  \<open>\<lambda>\<close>; for evaluation by rewriting they are replaced by equal forms that do not.
\<close>

declare recursiveChildren_eq [code]

lemma preorderContainers_zip [code]:
  "preorderContainers node =
     concat (map (\<lambda>p. fst p # snd p)
               (zip (filter isContainer (inheritors node))
                    (map preorderContainers (filter isContainer (inheritors node)))))"
  by (subst preorderContainers.simps) (simp add: zip_map2 zip_same_conv_map comp_def)

subsection \<open>Decimal numerals and the keys of an array\<close>

lemma digit_char:
  assumes "d < 10"
  shows "of_char (''0123456789'' ! d) = (48 + d :: nat)"
proof -
  from assms have "d \<in> {0, 1, 2, 3, 4, 5, 6, 7, 8, 9}" by auto
  then show ?thesis by auto
qed

lemma decimalValue_formatDecimal: "decimalValue (formatDecimal n) = n"
proof (induction n rule: formatDecimal.induct)
  case (1 n)
  show ?case
  proof (cases "n < 10")
    case True
    then show ?thesis
      by (subst formatDecimal.simps) (simp add: decimalValue_def digit_char)
  next
    case False
    with 1 have "decimalValue (formatDecimal (n div 10)) = n div 10" by simp
    with False show ?thesis
      by (subst formatDecimal.simps) (simp add: decimalValue_def digit_char)
  qed
qed

lemma formatDecimal_inj: "formatDecimal m = formatDecimal n \<Longrightarrow> m = n"
  by (metis decimalValue_formatDecimal)

lemma formatDecimal_no_minus: "CHR ''-'' \<notin> set (formatDecimal n)"
proof (induction n rule: formatDecimal.induct)
  case (1 n)
  have d: "''0123456789'' ! k \<noteq> CHR ''-''" if "k < 10" for k
  proof
    assume "''0123456789'' ! k = CHR ''-''"
    then have "(of_char (''0123456789'' ! k) :: nat) = of_char (CHR ''-'')" by simp
    with that show False by (simp add: digit_char)
  qed
  show ?case
  proof (cases "n < 10")
    case True
    with d [of n] show ?thesis by (subst formatDecimal.simps) auto
  next
    case False
    with 1 have "CHR ''-'' \<notin> set (formatDecimal (n div 10))" by simp
    with False d [of "n mod 10"] show ?thesis by (subst formatDecimal.simps) auto
  qed
qed

lemma Itoa_negative: "i < 0 \<Longrightarrow> Itoa i \<noteq> Itoa (int k)"
proof
  assume "i < 0" and "Itoa i = Itoa (int k)"
  then have "CHR ''-'' # formatDecimal (nat (- i)) = formatDecimal k"
    by (simp add: Itoa_def)
  then have "CHR ''-'' \<in> set (formatDecimal k)"
    by (metis list.set_intros(1))
  with formatDecimal_no_minus show False by blast
qed

lemma Itoa_inj_nat: "0 \<le> i \<Longrightarrow> Itoa i = Itoa (int k) \<Longrightarrow> i = int k"
  using formatDecimal_inj [of "nat i" k] by (simp add: Itoa_def)

lemma children_Array_Itoa:
  "children (Array xs) (Itoa i) =
     (if 0 \<le> i \<and> i < int (length xs) then Some (xs ! nat i) else None)"
proof -
  let ?keys = "map (\<lambda>k. Itoa (int k)) [0..<length xs]"
  have len: "length ?keys = length xs" by simp
  have "x = y" if "Itoa (int x) = Itoa (int y)" for x y
    using Itoa_inj_nat [of "int x" y] that by simp
  then have dist: "distinct ?keys"
    by (auto simp: distinct_map inj_on_def)
  show ?thesis
  proof (cases "0 \<le> i \<and> i < int (length xs)")
    case True
    then have k: "nat i < length xs" by linarith
    with True have "?keys ! nat i = Itoa i" by simp
    with map_of_zip_nth [OF len dist k] True show ?thesis by simp
  next
    case False
    have ne: "Itoa i \<noteq> Itoa (int k)" if "k < length xs" for k
    proof (cases "i < 0")
      case True
      then show ?thesis by (rule Itoa_negative)
    next
      case neg: False
      with False that Itoa_inj_nat [of i k] show ?thesis by auto
    qed
    have "Itoa i \<notin> set ?keys"
    proof
      assume "Itoa i \<in> set ?keys"
      then obtain k where "k < length xs" and "Itoa i = Itoa (int k)" by auto
      with ne show False by blast
    qed
    then have "map_of (zip ?keys xs) (Itoa i) = None"
      using map_of_zip_is_None [OF len, of "Itoa i"] by blast
    with False show ?thesis by auto
  qed
qed

lemma Atoi_range: "Atoi s = Some v \<Longrightarrow> inInt64 v"
  by (auto simp: Atoi_def inInt64_def Let_def split: option.splits if_splits)

subsection \<open>The inner loop of the slice command\<close>

lemma wrap64_id: "inInt64 x \<Longrightarrow> wrap64 x = x"
  by (simp add: wrap64_def inInt64_def MinInt64_def MaxInt64_def)

lemma wrap64_overflow:
  assumes "MaxInt64 < x" and "x \<le> 2 * MaxInt64"
  shows "wrap64 x < 0"
proof -
  from assms have "0 \<le> x + 2 ^ 63 - 2 ^ 64" and "x + 2 ^ 63 - 2 ^ 64 < (2 ^ 64 :: int)"
    by (simp_all add: MaxInt64_def)
  then have "(x + 2 ^ 63 - 2 ^ 64) mod 2 ^ 64 = x + 2 ^ 63 - 2 ^ 64"
    by (rule mod_pos_pos_trivial)
  moreover have "(x + 2 ^ 63) mod 2 ^ 64 = (x + 2 ^ 63 - 2 ^ 64) mod 2 ^ 64"
    by (metis minus_mod_self2)
  ultimately have "wrap64 x = x - 2 ^ 64" by (simp add: wrap64_def)
  with assms show ?thesis by (simp add: MaxInt64_def)
qed

lemma sliceLoop_missing:
  "\<not> (0 \<le> i \<and> i < int (length xs)) \<Longrightarrow> sliceLoop (Array xs) to step i temp = Some temp"
  by (subst sliceLoop.simps) (simp only: children_Array_Itoa, simp)

lemma sliceLoop_bound: "\<not> i < to \<Longrightarrow> sliceLoop element to step i temp = Some temp"
  by (subst sliceLoop.simps) simp

lemma sliceLoop_found:
  "i < to \<Longrightarrow> 0 \<le> i \<Longrightarrow> i < int (length xs) \<Longrightarrow>
     sliceLoop (Array xs) to step i temp =
       sliceLoop (Array xs) to step (wrap64 (i + step)) (temp @ [xs ! nat i])"
  by (subst sliceLoop.simps) (simp only: children_Array_Itoa, simp)

lemma sliceLoop_zero_step_stuck:
  assumes "sliceLoop element bound step j acc = Some res"
    and "int (length xs) \<le> MaxInt64 + 1"
  shows "\<not> (element = Array xs \<and> step = 0 \<and> j < bound \<and> 0 \<le> j \<and> j < int (length xs))"
  using assms(1)
proof (induction rule: sliceLoop.raw_induct [rotated 1, consumes 1, case_names body])
  case (body loop element bound step j acc res)
  show ?case
  proof
    assume a: "element = Array xs \<and> step = 0 \<and> j < bound \<and> 0 \<le> j \<and> j < int (length xs)"
    with assms(2) have "inInt64 j" by (simp add: inInt64_def MinInt64_def MaxInt64_def)
    then have w: "wrap64 j = j" by (simp add: wrap64_id)
    from a body.hyps have "loop (Array xs) bound 0 j (acc @ [xs ! nat j]) = Some res"
      by (simp add: children_Array_Itoa w del: children.simps)
    from body.IH [OF this] a show False by simp
  qed
qed

lemma sliceLoop_zero_step_diverges:
  assumes "i < to" and "0 \<le> i" and "i < int (length xs)" and "int (length xs) \<le> MaxInt64 + 1"
  shows "sliceLoop (Array xs) to 0 i temp = None"
proof (rule ccontr)
  assume "sliceLoop (Array xs) to 0 i temp \<noteq> None"
  then obtain out where "sliceLoop (Array xs) to 0 i temp = Some out" by auto
  from sliceLoop_zero_step_stuck [OF this assms(4)] assms show False by simp
qed

lemma sliceLoop_indices:
  assumes "step \<noteq> 0" and "inInt64 step" and "int (length xs) \<le> MaxInt64 + 1"
  shows "sliceLoop (Array xs) to step i temp =
           Some (temp @ map (\<lambda>k. xs ! nat k) (sliceIndices i to step (length xs)))"
  using assms
proof (induction i to step "length xs" arbitrary: temp rule: sliceIndices.induct)
  case (1 i to step)
  show ?case
  proof (cases "i < to \<and> 0 \<le> i \<and> i < int (length xs)")
    case True
    with "1.prems" have idx: "sliceIndices i to step (length xs)
        = i # sliceIndices (i + step) to step (length xs)"
      by (subst sliceIndices.simps) simp
    from True have unfold: "sliceLoop (Array xs) to step i temp =
        sliceLoop (Array xs) to step (wrap64 (i + step)) (temp @ [xs ! nat i])"
      by (simp add: sliceLoop_found)
    show ?thesis
    proof (cases "inInt64 (i + step)")
      case inside: True
      from True "1.prems" have "sliceLoop (Array xs) to step (i + step) (temp @ [xs ! nat i]) =
          Some ((temp @ [xs ! nat i])
                 @ map (\<lambda>k. xs ! nat k) (sliceIndices (i + step) to step (length xs)))"
        by (intro "1.hyps") simp_all
      with unfold idx inside show ?thesis by (simp add: wrap64_id)
    next
      case outside: False
      with True "1.prems" have over: "MaxInt64 < i + step" and le: "i + step \<le> 2 * MaxInt64"
        by (simp_all add: inInt64_def MinInt64_def MaxInt64_def)
      from wrap64_overflow [OF over le]
      have "sliceLoop (Array xs) to step (wrap64 (i + step)) (temp @ [xs ! nat i])
          = Some (temp @ [xs ! nat i])"
        by (intro sliceLoop_missing) simp
      moreover from over "1.prems" have "sliceIndices (i + step) to step (length xs) = []"
        by (subst sliceIndices.simps) simp
      ultimately show ?thesis using unfold idx by simp
    qed
  next
    case False
    then have "sliceIndices i to step (length xs) = []"
      by (subst sliceIndices.simps) auto
    moreover from False have "sliceLoop (Array xs) to step i temp = Some temp"
      using sliceLoop_missing [of i xs] sliceLoop_bound [of i to] by blast
    ultimately show ?thesis by simp
  qed
qed

lemma sliceLoop_all_steps:
  assumes "inInt64 step" and "int (length xs) \<le> MaxInt64 + 1"
  shows "sliceLoop (Array xs) to step from temporary =
     (if step = 0 \<and> from < to \<and> 0 \<le> from \<and> from < int (length xs) then None
      else Some (temporary @ map (\<lambda>k. xs ! nat k) (sliceIndices from to step (length xs))))"
proof (cases "step = 0")
  case False
  with sliceLoop_indices [OF False assms] show ?thesis by simp
next
  case True
  show ?thesis
  proof (cases "from < to \<and> 0 \<le> from \<and> from < int (length xs)")
    case stuck: True
    with True sliceLoop_zero_step_diverges [of "from" to xs temporary] assms(2)
    show ?thesis by simp
  next
    case False
    then have "sliceLoop (Array xs) to step from temporary = Some temporary"
      using sliceLoop_missing [of "from" xs] sliceLoop_bound [of "from" to] by blast
    moreover from True have "sliceIndices from to step (length xs) = []"
      by (subst sliceIndices.simps) simp
    ultimately show ?thesis using False by simp
  qed
qed

lemma sliceElements_concat:
  assumes "step \<noteq> 0" and "inInt64 step"
    and "\<forall>element \<in> set result. int (length (inheritors element)) \<le> MaxInt64 + 1"
  shows "sliceElements from to step result temp =
           Some (temp @ concat (map (sliceOf from to step) result))"
  using assms(3)
proof (induction result arbitrary: temp)
  case Nil
  show ?case by simp
next
  case (Cons element rest)
  show ?case
  proof (cases element)
    case (Array xs)
    with Cons.prems have "int (length xs) \<le> MaxInt64 + 1" by simp
    from sliceLoop_indices [OF assms(1,2) this, of to "from" temp] Array Cons
    show ?thesis by (simp add: sliceOf_def)
  next
    case (Scalar v)
    with Cons show ?thesis by (simp add: sliceOf_def)
  next
    case (Object kvs)
    with Cons show ?thesis by (simp add: sliceOf_def)
  qed
qed










subsection \<open>Splitting a command\<close>

lemma Split_not_Nil: "Split s sep \<noteq> []"
  by (induction s) (auto split: list.splits)


lemma Split_append: "sep \<notin> set a \<Longrightarrow> Split (a @ sep # b) sep = a # Split b sep"
  by (induction a) auto

lemma Split_length: "length (Split s sep) = Suc (length (filter (\<lambda>c. c = sep) s))"
  by (induction s) (auto split: list.splits simp: Split_not_Nil)

lemma Split_Contains: "Contains s sep \<Longrightarrow> 2 \<le> length (Split s sep)"
proof -
  assume "Contains s sep"
  then have "filter (\<lambda>c. c = sep) s \<noteq> []"
    by (auto simp: Contains_def filter_empty_conv)
  then have "Suc 0 \<le> length (filter (\<lambda>c. c = sep) s)"
    by (cases "filter (\<lambda>c. c = sep) s") simp_all
  then show ?thesis by (simp add: Split_length)
qed

lemma Split_fields:
  assumes "Contains cmd sep" and "\<not> 3 < length (Split cmd sep)"
  obtains f t where "Split cmd sep = [f, t]"
  | f t s where "Split cmd sep = [f, t, s]"
proof -
  from Split_Contains [OF assms(1)] assms(2)
  have "length (Split cmd sep) = 2 \<or> length (Split cmd sep) = 3" by linarith
  then show ?thesis
  proof
    assume "length (Split cmd sep) = 2"
    then obtain f t where "Split cmd sep = [f, t]"
      by (auto simp: length_Suc_conv numeral_2_eq_2)
    then show ?thesis by (rule that(1))
  next
    assume "length (Split cmd sep) = 3"
    then obtain f t s where "Split cmd sep = [f, t, s]"
      by (auto simp: length_Suc_conv numeral_3_eq_3)
    then show ?thesis by (rule that(2))
  qed
qed


subsection \<open>The slice command\<close>

lemma sliceField_range: "sliceField dflt field = Some v \<Longrightarrow> inInt64 dflt \<Longrightarrow> inInt64 v"
  by (auto simp: sliceField_def Atoi_range split: if_splits)

lemma evalSlice_two_fields:
  assumes "Split cmd (CHR '':'') = [f, t]"
  shows "evalSlice cmd result =
     (case sliceField 0 f of
        None \<Rightarrow> Some (Inl ErrorRequest)
      | Some from \<Rightarrow>
          (case sliceField MaxInt64 t of
             None \<Rightarrow> Some (Inl ErrorRequest)
           | Some to \<Rightarrow> map_option Inr (sliceElements from to 1 result [])))"
  using assms by (simp add: evalSlice_def sliceField_def Let_def cong: option.case_cong)

lemma evalSlice_three_fields:
  assumes "Split cmd (CHR '':'') = [f, t, s]"
  shows "evalSlice cmd result =
     (case sliceField 0 f of
        None \<Rightarrow> Some (Inl ErrorRequest)
      | Some from \<Rightarrow>
          (case sliceField MaxInt64 t of
             None \<Rightarrow> Some (Inl ErrorRequest)
           | Some to \<Rightarrow>
               (case sliceField 1 s of
                  None \<Rightarrow> Some (Inl ErrorRequest)
                | Some step \<Rightarrow> map_option Inr (sliceElements from to step result []))))"
  using assms by (simp add: evalSlice_def sliceField_def Let_def cong: option.case_cong)

lemma evalSlice_malformed:
  assumes "Contains cmd (CHR '':'')" and "sliceMalformed cmd"
  shows "evalSlice cmd result = Some (Inl ErrorRequest)"
proof (cases "3 < length (Split cmd (CHR '':''))")
  case True
  then show ?thesis by (simp add: evalSlice_def)
next
  case False
  from assms(1) False show ?thesis
  proof (cases rule: Split_fields)
    case (1 f t)
    with assms(2) have "sliceField 0 f = None \<or> sliceField MaxInt64 t = None"
      by (auto simp: sliceMalformed_def sliceField_def)
    then show ?thesis
      by (auto simp: evalSlice_two_fields [OF 1] split: option.splits)
  next
    case (2 f t s)
    with assms(2)
    have "sliceField 0 f = None \<or> sliceField MaxInt64 t = None \<or> sliceField 1 s = None"
      by (auto simp: sliceMalformed_def sliceField_def)
    then show ?thesis
      by (auto simp: evalSlice_three_fields [OF 2] split: option.splits)
  qed
qed

lemma evalSlice_wellformed:
  assumes "Contains cmd (CHR '':'')" and "\<not> sliceMalformed cmd"
  shows "\<exists>from to step. evalSlice cmd result = map_option Inr (sliceElements from to step result [])"
proof -
  from assms(2) have short: "\<not> 3 < length (Split cmd (CHR '':''))"
    by (simp add: sliceMalformed_def Let_def)
  from assms(1) short show ?thesis
  proof (cases rule: Split_fields)
    case (1 f t)
    with assms(2) have "sliceField 0 f \<noteq> None" and "sliceField MaxInt64 t \<noteq> None"
      by (auto simp: sliceMalformed_def sliceField_def)
    then obtain a b where "sliceField 0 f = Some a" and "sliceField MaxInt64 t = Some b"
      by blast
    then show ?thesis
      by (auto simp: evalSlice_two_fields [OF 1])
  next
    case (2 f t s)
    with assms(2) have "sliceField 0 f \<noteq> None" and "sliceField MaxInt64 t \<noteq> None"
      and "sliceField 1 s \<noteq> None"
      by (auto simp: sliceMalformed_def sliceField_def)
    then obtain a b c where "sliceField 0 f = Some a"
      and "sliceField MaxInt64 t = Some b" and "sliceField 1 s = Some c"
      by blast
    then show ?thesis
      by (auto simp: evalSlice_three_fields [OF 2])
  qed
qed

lemma Contains_not_marker:
  assumes "Contains cmd (CHR '':'')"
  shows "cmd \<noteq> ''$''" and "cmd \<noteq> ''..''" and "cmd \<noteq> ''*''"
  using assms by (auto simp: Contains_def)

lemma evalCommand_slice:
  "Contains cmd (CHR '':'') \<Longrightarrow> evalCommand root i cmd result = evalSlice cmd result"
  by (simp add: evalCommand_def Contains_not_marker)

lemma evalSlice_fields:
  assumes "Split cmd (CHR '':'') = f # t # rest"
    and "sliceField 0 f = Some from" and "sliceField MaxInt64 t = Some to"
    and "rest = [] \<and> step = 1 \<or> (\<exists>s. rest = [s] \<and> sliceField 1 s = Some step)"
    and "step \<noteq> 0"
    and "\<forall>element \<in> set result. int (length (inheritors element)) \<le> MaxInt64 + 1"
  shows "evalSlice cmd result = Some (Inr (concat (map (sliceOf from to step) result)))"
proof -
  have "inInt64 step"
    using assms(4) sliceField_range [of 1 _ step]
    by (auto simp: inInt64_def MinInt64_def MaxInt64_def)
  from sliceElements_concat [OF assms(5) this assms(6), of "from" to "[]"]
  have run: "sliceElements from to step result [] =
      Some (concat (map (sliceOf from to step) result))"
    by simp
  from assms(4) have "evalSlice cmd result = map_option Inr (sliceElements from to step result [])"
  proof
    assume "rest = [] \<and> step = 1"
    with assms(1-3) show ?thesis by (simp add: evalSlice_two_fields)
  next
    assume "\<exists>s. rest = [s] \<and> sliceField 1 s = Some step"
    then obtain s where "rest = [s]" and "sliceField 1 s = Some step" by blast
    with assms(1-3) show ?thesis by (simp add: evalSlice_three_fields)
  qed
  with run show ?thesis by simp
qed


lemma split_four_fields: "Split ''1:2:3:4'' (CHR '':'') = [''1'', ''2'', ''3'', ''4'']"
  by code_simp

lemma split_zero_step: "Split ''0:1:0'' (CHR '':'') = [''0'', ''1'', ''0'']"
  by code_simp

lemma evalSlice_zero_step:
  "evalSlice ''0:1:0'' result = map_option Inr (sliceElements 0 1 0 result [])"
proof -
  have "sliceField 0 ''0'' = Some 0" and "sliceField MaxInt64 ''1'' = Some 1"
    and "sliceField 1 ''0'' = Some 0"
    by code_simp+
  then show ?thesis by (simp add: evalSlice_three_fields [OF split_zero_step])
qed

subsection \<open>Keys and unions\<close>

lemma evalKeys_concat:
  "evalKeys cmd result =
     concat (map (\<lambda>key. concat (map (keyMatches key) result)) (Split cmd (CHR '','')))"
  by (simp add: evalKeys_def foldl_keyMatches foldl_append_each del: children.simps)

lemma evalKeys_empty: "evalKeys cmd [] = []"
  by (simp add: evalKeys_concat)

lemma evalCommand_keys:
  assumes "cmd \<noteq> ''$''" and "cmd \<noteq> ''..''" and "cmd \<noteq> ''*''"
    and "\<not> Contains cmd (CHR '':'')" and "\<not> HasPrefix cmd ''?(''"
  shows "evalCommand root i cmd result =
           Some (Inr (concat (map (\<lambda>key. concat (map (keyMatches key) result))
                                (Split cmd (CHR '','')))))"
  using assms by (simp add: evalCommand_def evalKeys_concat)

subsection \<open>The fold over the commands\<close>

lemma evalCommands_append:
  "evalCommands root i (pre @ rest) result =
     (case evalCommands root i pre result of
        None \<Rightarrow> None
      | Some (Inl err) \<Rightarrow> Some (Inl err)
      | Some (Inr result') \<Rightarrow> evalCommands root (i + length pre) rest result')"
  by (induction pre arbitrary: i result) (auto split: option.splits sum.splits)

lemma evalCommand_later: "0 < i \<Longrightarrow> 0 < j \<Longrightarrow> evalCommand root i cmd result = evalCommand root j cmd result"
  by (simp add: evalCommand_def)

lemma evalCommands_later:
  "0 < i \<Longrightarrow> 0 < j \<Longrightarrow> evalCommands root i commands result = evalCommands root j commands result"
proof (induction commands arbitrary: i j result)
  case Nil
  show ?case by simp
next
  case (Cons cmd commands)
  from Cons.prems have "evalCommand root i cmd result = evalCommand root j cmd result"
    by (rule evalCommand_later)
  moreover have "evalCommands root (Suc i) commands r = evalCommands root (Suc j) commands r" for r
    by (rule Cons.IH) simp_all
  ultimately show ?case by (simp split: option.splits sum.splits)
qed

lemma evalCommand_empty:
  assumes "cmd \<noteq> ''$'' \<or> 0 < i"
  shows "evalCommand root i cmd [] =
           (if malformedCommand cmd then Some (Inl ErrorRequest) else Some (Inr []))"
proof (cases "Contains cmd (CHR '':'')")
  case True
  show ?thesis
  proof (cases "sliceMalformed cmd")
    case bad: True
    with True show ?thesis
      by (simp add: malformedCommand_def evalCommand_slice evalSlice_malformed)
  next
    case good: False
    from evalSlice_wellformed [OF True good, of "[]"]
    have "evalSlice cmd [] = Some (Inr [])" by auto
    with True good show ?thesis
      by (simp add: malformedCommand_def evalCommand_slice)
  qed
next
  case False
  with assms show ?thesis
    by (auto simp: malformedCommand_def evalCommand_def evalKeys_empty)
qed

lemma evalCommands_empty:
  assumes "commands = [] \<or> hd commands \<noteq> ''$'' \<or> 0 < i"
  shows "evalCommands root i commands [] =
           (if list_ex malformedCommand commands then Some (Inl ErrorRequest)
            else Some (Inr []))"
  using assms
proof (induction commands arbitrary: i)
  case Nil
  show ?case by simp
next
  case (Cons cmd commands)
  from Cons.prems have "cmd \<noteq> ''$'' \<or> 0 < i" by simp
  then have one: "evalCommand root i cmd [] =
      (if malformedCommand cmd then Some (Inl ErrorRequest) else Some (Inr []))"
    by (rule evalCommand_empty)
  have "evalCommands root (Suc i) commands [] =
      (if list_ex malformedCommand commands then Some (Inl ErrorRequest) else Some (Inr []))"
    by (rule Cons.IH) simp
  with one show ?case by simp
qed

lemma ParseJSONPath_root: "ParseJSONPath ''$'' = Inr [''$'']"
  by code_simp

lemma evalCommands_four_fields:
  "evalCommands root 0 [''$'', ''a'', ''1:2:3:4''] [] = Some (Inl ErrorRequest)"
  by (simp add: evalCommand_def evalSlice_def Contains_def HasPrefix_def split_four_fields)

subsection \<open>Termination of the query\<close>

text \<open>
  The nodes of the working result are nodes of the tree, and the query returns whenever
  no slice command has a zero step: the tokenizer always returns, the recursive descent
  follows a finite tree, and the inner loop of a slice moves away from every index it
  has found.
\<close>

lemma boundedArrays_inheritors:
  "boundedArrays node \<Longrightarrow> child \<in> set (inheritors node) \<Longrightarrow> boundedArrays child"
  by (cases node) auto

lemma boundedArrays_length:
  "boundedArrays node \<Longrightarrow> int (length (inheritors node)) \<le> MaxInt64 + 1"
  by (cases node) (simp_all add: MaxInt64_def)

lemma children_inheritors: "children node key = Some child \<Longrightarrow> child \<in> set (inheritors node)"
proof (cases node)
  case (Scalar v)
  then show "children node key = Some child \<Longrightarrow> child \<in> set (inheritors node)" by simp
next
  case (Array xs)
  assume "children node key = Some child"
  with Array have "(key, child) \<in> set (zip (map (\<lambda>k. Itoa (int k)) [0..<length xs]) xs)"
    by (auto dest: map_of_SomeD)
  then have "child \<in> set xs" by (rule set_zip_rightD)
  with Array show ?thesis by simp
next
  case (Object kvs)
  assume "children node key = Some child"
  with Object have "(key, child) \<in> set kvs" by (auto dest: map_of_SomeD)
  with Object show ?thesis by force
qed

lemma recursiveChildren_bounded:
  "boundedArrays node \<Longrightarrow> e \<in> set (recursiveChildren node) \<Longrightarrow> boundedArrays e"
proof (induction node rule: Node_inheritors_induct)
  case (inheritors node)
  from inheritors.prems(2)
  have "e \<in> {c \<in> set (inheritors node). isContainer c}
       \<union> (\<Union>c \<in> {c \<in> set (inheritors node). isContainer c}. set (recursiveChildren c))"
    by (simp only: set_recursiveChildren [of node])
  then show ?case
  proof
    assume "e \<in> {c \<in> set (inheritors node). isContainer c}"
    with inheritors.prems(1) show ?thesis by (auto intro: boundedArrays_inheritors)
  next
    assume "e \<in> (\<Union>c \<in> {c \<in> set (inheritors node). isContainer c}. set (recursiveChildren c))"
    then obtain c where c: "c \<in> set (inheritors node)" and e: "e \<in> set (recursiveChildren c)"
      by blast
    from inheritors.prems(1) c have "boundedArrays c" by (rule boundedArrays_inheritors)
    from inheritors.IH [OF c this e] show ?thesis .
  qed
qed

lemma sliceIndices_range: "k \<in> set (sliceIndices i to step n) \<Longrightarrow> 0 \<le> k \<and> k < int n"
proof (induction i to step n rule: sliceIndices.induct)
  case (1 i to step n)
  show ?case
  proof (cases "step \<noteq> 0 \<and> i < to \<and> 0 \<le> i \<and> i < int n")
    case True
    with "1.prems" have "k = i \<or> k \<in> set (sliceIndices (i + step) to step n)"
      by (subst (asm) sliceIndices.simps) auto
    with True "1.IH" show ?thesis by auto
  next
    case False
    with "1.prems" show ?thesis by (subst (asm) sliceIndices.simps) auto
  qed
qed

lemma sliceOf_inheritors: "e \<in> set (sliceOf from to step node) \<Longrightarrow> e \<in> set (inheritors node)"
proof -
  assume "e \<in> set (sliceOf from to step node)"
  then obtain k where "k \<in> set (sliceIndices from to step (length (inheritors node)))"
    and e: "e = inheritors node ! nat k"
    by (auto simp: sliceOf_def split: if_splits)
  from sliceIndices_range [OF this(1)] have "nat k < length (inheritors node)" by linarith
  with e show ?thesis by simp
qed

lemma keyMatches_inheritors:
  assumes "e \<in> set (keyMatches key node)"
  shows "e \<in> set (inheritors node)"
proof -
  from assms have "e \<in> set (case children node key of Some val \<Rightarrow> [val] | None \<Rightarrow> [])"
    unfolding keyMatches_def by (cases "isContainer node") simp_all
  then have "children node key = Some e"
    by (cases "children node key") simp_all
  then show ?thesis by (rule children_inheritors)
qed

lemma evalSlice_returns:
  assumes "Contains cmd (CHR '':'')" and "\<not> zeroStep cmd"
    and "\<forall>element \<in> set result. boundedArrays element"
  shows "evalSlice cmd result = Some (Inl ErrorRequest)
     \<or> (\<exists>from to step. evalSlice cmd result
            = Some (Inr (concat (map (sliceOf from to step) result))))"
proof (cases "sliceMalformed cmd")
  case True
  with assms(1) show ?thesis by (simp add: evalSlice_malformed)
next
  case False
  then have short: "\<not> 3 < length (Split cmd (CHR '':''))"
    by (simp add: sliceMalformed_def Let_def)
  have sizes: "\<forall>element \<in> set result. int (length (inheritors element)) \<le> MaxInt64 + 1"
    using assms(3) by (simp add: boundedArrays_length)
  from assms(1) short show ?thesis
  proof (cases rule: Split_fields)
    case (1 f t)
    with False
    have "sliceField 0 f \<noteq> None" and "sliceField MaxInt64 t \<noteq> None"
      by (auto simp: sliceMalformed_def sliceField_def)
    then obtain a b where ab: "sliceField 0 f = Some a" "sliceField MaxInt64 t = Some b"
      by blast
    have "evalSlice cmd result = Some (Inr (concat (map (sliceOf a b 1) result)))"
      by (rule evalSlice_fields [OF 1 ab _ _ sizes]) simp_all
    then show ?thesis by blast
  next
    case (2 f t s)
    with False
    have "sliceField 0 f \<noteq> None" and "sliceField MaxInt64 t \<noteq> None"
      and "sliceField 1 s \<noteq> None"
      by (auto simp: sliceMalformed_def sliceField_def)
    then obtain a b c where abc: "sliceField 0 f = Some a" "sliceField MaxInt64 t = Some b"
      "sliceField 1 s = Some c"
      by blast
    from assms(2) 2 abc have nz: "c \<noteq> 0" by (auto simp: zeroStep_def)
    from abc(3) have "[s] = [] \<and> c = 1 \<or> (\<exists>s'. [s] = [s'] \<and> sliceField 1 s' = Some c)"
      by simp
    from evalSlice_fields [OF 2 abc(1,2) this nz sizes]
    show ?thesis by blast
  qed
qed

lemma evalCommand_returns:
  assumes "\<not> zeroStep cmd" and "boundedArrays root"
    and "\<forall>element \<in> set result. boundedArrays element"
  shows "evalCommand root i cmd result = Some (Inl ErrorRequest)
     \<or> (\<exists>out. evalCommand root i cmd result = Some (Inr out)
               \<and> (\<forall>element \<in> set out. boundedArrays element))"
proof (cases "Contains cmd (CHR '':'')")
  case True
  from evalSlice_returns [OF True assms(1,3)] show ?thesis
  proof
    assume "evalSlice cmd result = Some (Inl ErrorRequest)"
    with True show ?thesis by (simp add: evalCommand_slice)
  next
    assume "\<exists>from to step. evalSlice cmd result
            = Some (Inr (concat (map (sliceOf from to step) result)))"
    then obtain a b c where "evalSlice cmd result
            = Some (Inr (concat (map (sliceOf a b c) result)))"
      by blast
    moreover have "\<forall>element \<in> set (concat (map (sliceOf a b c) result)). boundedArrays element"
      using assms(3) by (auto dest!: sliceOf_inheritors intro: boundedArrays_inheritors)
    ultimately show ?thesis using True by (simp add: evalCommand_slice)
  qed
next
  case False
  have keys: "\<forall>element \<in> set (evalKeys cmd result). boundedArrays element"
    using assms(3)
    by (auto simp: evalKeys_concat dest!: keyMatches_inheritors intro: boundedArrays_inheritors)
  have descent: "\<forall>element \<in> set (concat (map recursiveChildren result)). boundedArrays element"
    using assms(3) by (auto intro: recursiveChildren_bounded)
  have wild: "\<forall>element \<in> set (concat (map inheritors result)). boundedArrays element"
    using assms(3) by (auto intro: boundedArrays_inheritors)
  from False keys descent wild assms(2,3) show ?thesis
    by (auto simp: evalCommand_def foldl_append_each)
qed

lemma evalCommands_returns:
  assumes "\<not> list_ex zeroStep commands" and "boundedArrays root"
    and "\<forall>element \<in> set result. boundedArrays element"
  shows "\<exists>outcome. evalCommands root i commands result = Some outcome"
  using assms(1,3)
proof (induction commands arbitrary: i result)
  case Nil
  show ?case by simp
next
  case (Cons cmd commands)
  from Cons.prems have "\<not> zeroStep cmd" and rest: "\<not> list_ex zeroStep commands" by simp_all
  from evalCommand_returns [OF this(1) assms(2) Cons.prems(2), of i] show ?case
  proof
    assume "evalCommand root i cmd result = Some (Inl ErrorRequest)"
    then show ?thesis by simp
  next
    assume "\<exists>out. evalCommand root i cmd result = Some (Inr out)
               \<and> (\<forall>element \<in> set out. boundedArrays element)"
    then obtain out where out: "evalCommand root i cmd result = Some (Inr out)"
      and b: "\<forall>element \<in> set out. boundedArrays element"
      by blast
    from Cons.IH [OF rest b, of "Suc i"] out show ?thesis by simp
  qed
qed

lemma JSONPath_returns:
  assumes "\<And>commands. ParseJSONPath path = Inr commands \<Longrightarrow> \<not> list_ex zeroStep commands"
    and "\<And>root. Unmarshal bytes = Inr root \<Longrightarrow> boundedArrays root"
  shows "\<exists>outcome. JSONPath Unmarshal bytes path = Some outcome"
proof (cases "ParseJSONPath path")
  case (Inl err)
  then show ?thesis by (simp add: JSONPath_def JSONPath_run_def)
next
  case (Inr commands)
  show ?thesis
  proof (cases "Unmarshal bytes")
    case (Inl err)
    with Inr show ?thesis by (simp add: JSONPath_def JSONPath_run_def)
  next
    case root: (Inr root)
    from evalCommands_returns [OF assms(1) [OF Inr] assms(2) [OF root], of "[]" 0]
    obtain outcome where "evalCommands root 0 commands [] = Some outcome" by auto
    with Inr root show ?thesis by (simp add: JSONPath_def JSONPath_run_def)
  qed
qed

section \<open>The claims\<close>

text \<open>
  In the examples the document parser is the parameter of \<open>JSONPath\<close>: it is taken to
  return the node tree of the example's document, whatever the bytes.
\<close>

subsection \<open>C1: the order of the recursive descent\<close>

text \<open>
  C1, as stated: the list of \<open>recursiveChildren\<close> is the pre-order traversal restricted to
  containers, each direct container child immediately followed by its own list, before
  the next sibling.  It is not: on \<^verbatim>\<open>{"a":{"x":{}},"b":[]}\<close> the code lists \<open>a\<close>, \<open>b\<close>, \<open>x\<close>
  (both children first), the pre-order is \<open>a\<close>, \<open>x\<close>, \<open>b\<close>.
\<close>

theorem C1_preorder_counterexample:
  "recursiveChildren docSiblings = [Object [(''x'', Object [])], Array [], Object []]
   \<and> preorderContainers docSiblings = [Object [(''x'', Object [])], Object [], Array []]
   \<and> recursiveChildren docSiblings \<noteq> preorderContainers docSiblings"
  by code_simp

text \<open>
  C1, amended: for every node, the list of \<open>recursiveChildren\<close> is the direct container
  children in natural order, followed by the list of each of them in that order; only
  containers appear in it; it holds the same nodes as the pre-order traversal of the
  containers, each as often; and on \<^verbatim>\<open>{"a":{"b":{"price":5},"c":[{"price":7}]}}\<close> the
  path \<^verbatim>\<open>$..price\<close> returns 5, 7.
\<close>

theorem C1_children_then_descendants:
  "recursiveChildren node =
     filter isContainer (inheritors node)
       @ concat (map recursiveChildren (filter isContainer (inheritors node)))
   \<and> list_all isContainer (recursiveChildren node)
   \<and> mset (recursiveChildren node) = mset (preorderContainers node)
   \<and> JSONPath (\<lambda>bytes. Inr docPrice) bytes ''$..price'' = Some (Inr [Scalar 5, Scalar 7])"
proof (intro conjI)
  show "recursiveChildren node =
     filter isContainer (inheritors node)
       @ concat (map recursiveChildren (filter isContainer (inheritors node)))"
    by (rule recursiveChildren_eq)
  show "list_all isContainer (recursiveChildren node)"
    by (simp add: list_all_iff recursiveChildren_containers)
  show "mset (recursiveChildren node) = mset (preorderContainers node)"
    by (rule mset_recursiveChildren)
  show "JSONPath (\<lambda>bytes. Inr docPrice) bytes ''$..price'' = Some (Inr [Scalar 5, Scalar 7])"
    by code_simp
qed

subsection \<open>C2: a malformed path and the document parser\<close>

text \<open>
  C2, as stated: both \<^verbatim>\<open>$.a[\<close> and \<^verbatim>\<open>$.a[1:2:3:4]\<close> fail before the document is parsed.
  For the second this is not so: the path tokenizes (the tokenizer does not look into the
  brackets), \<^verbatim>\<open>Unmarshal\<close> is called once, and the request error comes from the
  evaluator, after it.
\<close>

theorem C2_four_fields_counterexample:
  "ParseJSONPath ''$.a[1:2:3:4]'' = Inr [''$'', ''a'', ''1:2:3:4'']
   \<and> JSONPath_run (\<lambda>bytes. Inr docNumbers) [] ''$.a[1:2:3:4]'' = (1, Some (Inl ErrorRequest))"
  by code_simp

text \<open>
  C2, amended: a path that the tokenizer rejects fails with the tokenizer's error and
  \<^verbatim>\<open>Unmarshal\<close> is not called; \<^verbatim>\<open>$.a[\<close> (unterminated bracket) is such a path and
  fails with a ParseError.  The path \<^verbatim>\<open>$.a[1:2:3:4]\<close> tokenizes, \<^verbatim>\<open>Unmarshal\<close> is
  called once, its error is returned when it fails, and otherwise the evaluation fails
  with the request error, a ParseError too.
\<close>

theorem C2_tokenizer_errors_first:
  "(ParseJSONPath path = Inl err \<longrightarrow> JSONPath_run Unmarshal bytes path = (0, Some (Inl err)))
   \<and> JSONPath_run Unmarshal bytes ''$.a['' = (0, Some (Inl ErrorEOF))
   \<and> isParseError ErrorEOF
   \<and> JSONPath_run Unmarshal bytes ''$.a[1:2:3:4]''
        = (1, case Unmarshal bytes of
                Inl failure \<Rightarrow> Some (Inl failure)
              | Inr root \<Rightarrow> Some (Inl ErrorRequest))
   \<and> isParseError ErrorRequest"
proof (intro conjI impI)
  show "JSONPath_run Unmarshal bytes path = (0, Some (Inl err))" if "ParseJSONPath path = Inl err"
    using that by (simp add: JSONPath_run_def)
  have "ParseJSONPath ''$.a['' = Inl ErrorEOF" by code_simp
  then show "JSONPath_run Unmarshal bytes ''$.a['' = (0, Some (Inl ErrorEOF))"
    by (simp add: JSONPath_run_def)
  have "ParseJSONPath ''$.a[1:2:3:4]'' = Inr [''$'', ''a'', ''1:2:3:4'']" by code_simp
  then show "JSONPath_run Unmarshal bytes ''$.a[1:2:3:4]''
        = (1, case Unmarshal bytes of
                Inl failure \<Rightarrow> Some (Inl failure)
              | Inr root \<Rightarrow> Some (Inl ErrorRequest))"
    by (simp add: JSONPath_run_def evalCommands_four_fields split: sum.splits
          del: evalCommands.simps)
  show "isParseError ErrorEOF" and "isParseError ErrorRequest"
    by (simp_all add: isParseError_def)
qed

text \<open>
  The tokenizer rejects \<^verbatim>\<open>$.a[\<close>: the hypothesis of the amended C2 holds there.
\<close>

theorem C2_tokenizer_errors_first_witness:
  "JSONPath_run (\<lambda>bytes. Inr docNumbers) [] ''$.a['' = (0, Some (Inl ErrorEOF))"
proof -
  have "ParseJSONPath ''$.a['' = Inl ErrorEOF" by code_simp
  with C2_tokenizer_errors_first [of "''$.a[''" ErrorEOF "\<lambda>bytes. Inr docNumbers" "[]"]
  show ?thesis by blast
qed

subsection \<open>C3: termination of the query\<close>

text \<open>
  C3 says that the whole query returns for every document and path, for any integers in
  a slice command that pass the validation.  A step of zero passes the validation, and
  the inner loop then never moves on: on \<^verbatim>\<open>{"a":[10,20,30,40,50]}\<close> the path
  \<^verbatim>\<open>$.a[0:1:0]\<close> tokenizes, its slice command is well formed, the loop finds index 0
  again and again, and \<open>JSONPath\<close> never returns.  (Without a zero step the query does
  return: lemma \<open>JSONPath_returns\<close>.)
\<close>

theorem C3_zero_step_never_returns:
  "ParseJSONPath ''$.a[0:1:0]'' = Inr [''$'', ''a'', ''0:1:0'']
   \<and> \<not> sliceMalformed ''0:1:0''
   \<and> JSONPath (\<lambda>bytes. Inr docNumbers) bytes ''$.a[0:1:0]'' = None"
proof -
  let ?xs = "[Scalar 10, Scalar 20, Scalar 30, Scalar 40, Scalar 50] :: int Node list"
  have p: "ParseJSONPath ''$.a[0:1:0]'' = Inr ([''$'', ''a''] @ [''0:1:0''])"
    by code_simp
  have valid: "\<not> sliceMalformed ''0:1:0''"
    by code_simp
  have pre: "evalCommands docNumbers 0 [''$'', ''a''] [] = Some (Inr [Array ?xs])"
    by code_simp
  have "sliceLoop (Array ?xs) 1 0 0 [] = None"
    by (rule sliceLoop_zero_step_diverges) (simp_all add: MaxInt64_def)
  then have "evalCommand docNumbers j ''0:1:0'' [Array ?xs] = None" for j
    by (simp add: evalCommand_slice Contains_def evalSlice_zero_step)
  then have "evalCommands docNumbers j [''0:1:0''] [Array ?xs] = None" for j
    by simp
  with pre evalCommands_append [of docNumbers 0 "[''$'', ''a'']" "[''0:1:0'']" "[]"]
  have "evalCommands docNumbers 0 ([''$'', ''a''] @ [''0:1:0'']) [] = None"
    by (simp del: evalCommands.simps)
  with p have "JSONPath (\<lambda>bytes. Inr docNumbers) bytes ''$.a[0:1:0]'' = None"
    by (simp add: JSONPath_def JSONPath_run_def del: evalCommands.simps)
  with p valid show ?thesis by simp
qed

subsection \<open>C4: the slice command\<close>




subsection \<open>C5: recursive descent appends, the wildcard replaces\<close>

text \<open>
  C5: the recursive-descent command appends to the working result the lists of
  \<open>recursiveChildren\<close> of its nodes, keeping every node already present; the wildcard
  command replaces the working result by the direct children of its nodes, in natural
  order.  On \<^verbatim>\<open>{"a":{"x":{}},"b":[]}\<close> the paths \<^verbatim>\<open>$..*\<close> and \<^verbatim>\<open>$.*\<close> give different
  results.
\<close>

theorem C5_descent_appends_wildcard_replaces:
  "evalCommand root i ''..'' result = Some (Inr (result @ concat (map recursiveChildren result)))
   \<and> evalCommand root i ''*'' result = Some (Inr (concat (map inheritors result)))
   \<and> JSONPath (\<lambda>bytes. Inr docSiblings) bytes ''$..*''
         = Some (Inr [Object [(''x'', Object [])], Array [], Object []])
   \<and> JSONPath (\<lambda>bytes. Inr docSiblings) bytes ''$.*''
         = Some (Inr [Object [(''x'', Object [])], Array []])"
proof (intro conjI)
  show "evalCommand root i ''..'' result
      = Some (Inr (result @ concat (map recursiveChildren result)))"
    by (simp add: evalCommand_def foldl_append_each)
  show "evalCommand root i ''*'' result = Some (Inr (concat (map inheritors result)))"
    by (simp add: evalCommand_def foldl_append_each)
  show "JSONPath (\<lambda>bytes. Inr docSiblings) bytes ''$..*''
         = Some (Inr [Object [(''x'', Object [])], Array [], Object []])"
    by code_simp
  show "JSONPath (\<lambda>bytes. Inr docSiblings) bytes ''$.*''
         = Some (Inr [Object [(''x'', Object [])], Array []])"
    by code_simp
qed

subsection \<open>C6: the root command\<close>

text \<open>
  C6: the root command as the first command sets the working result to \<open>[root]\<close>, so the
  path \<^verbatim>\<open>$\<close> returns exactly \<open>[root]\<close> for every document that parses; at a later
  position the root command leaves the working result as it is, and a command sequence
  gives the same outcome with or without it.
\<close>

theorem C6_root_command:
  "evalCommand root 0 ''$'' [] = Some (Inr [root])
   \<and> (Unmarshal bytes = Inr root \<longrightarrow> JSONPath Unmarshal bytes ''$'' = Some (Inr [root]))
   \<and> (0 < i \<longrightarrow> evalCommand root i ''$'' result = Some (Inr result))
   \<and> (pre \<noteq> [] \<longrightarrow>
        evalCommands root 0 (pre @ ''$'' # rest) [] = evalCommands root 0 (pre @ rest) [])"
proof (intro conjI impI)
  show "evalCommand root 0 ''$'' [] = Some (Inr [root])"
    by (simp add: evalCommand_def)
  show "JSONPath Unmarshal bytes ''$'' = Some (Inr [root])" if "Unmarshal bytes = Inr root"
    using that by (simp add: JSONPath_def JSONPath_run_def ParseJSONPath_root evalCommand_def)
  show "evalCommand root i ''$'' result = Some (Inr result)" if "0 < i"
    using that by (simp add: evalCommand_def)
  show "evalCommands root 0 (pre @ ''$'' # rest) [] = evalCommands root 0 (pre @ rest) []"
    if "pre \<noteq> []"
  proof -
    from that have pos: "0 < length pre" by simp
    have "evalCommands root (length pre) (''$'' # rest) r = evalCommands root (length pre) rest r"
      for r :: "'a Node list"
      using pos evalCommands_later [of "Suc (length pre)" "length pre" root rest r]
      by (simp add: evalCommand_def)
    then show ?thesis
      by (simp add: evalCommands_append split: option.splits sum.splits)
  qed
qed

text \<open>
  The hypotheses of C6 hold for a parser that returns the tree of \<^verbatim>\<open>{"a":[10,20,30,40,50]}\<close>,
  at position 1, and for the command sequence \<^verbatim>\<open>$\<close>, \<^verbatim>\<open>a\<close>, \<^verbatim>\<open>$\<close>, \<^verbatim>\<open>0\<close>.
\<close>

theorem C6_root_command_witness:
  "JSONPath (\<lambda>bytes. Inr docNumbers) [] ''$'' = Some (Inr [docNumbers])
   \<and> evalCommand docNumbers 1 ''$'' [Scalar 7] = Some (Inr [Scalar 7])
   \<and> evalCommands docNumbers 0 ([''$'', ''a''] @ ''$'' # [''0'']) []
        = evalCommands docNumbers 0 ([''$'', ''a''] @ [''0'']) []"
proof -
  have "Inr docNumbers = (Inr docNumbers :: error + int Node)" and "0 < (1 :: nat)"
    and "[''$'', ''a''] \<noteq> []"
    by simp_all
  with C6_root_command [of docNumbers "\<lambda>bytes. Inr docNumbers" "[]" 1 "[Scalar 7]"
      "[''$'', ''a'']" "[''0'']"]
  show ?thesis by blast
qed

subsection \<open>C7: keys and unions\<close>

text \<open>
  C7, as stated: on \<^verbatim>\<open>{"a":{"x":1,"y":2,"z":3}}\<close> the path \<^verbatim>\<open>$.a['x','y']\<close> yields 1, 2
  and \<^verbatim>\<open>$.a['x','w']\<close> yields 1.  Both paths are rejected by the tokenizer: after the
  closing quote of \<^verbatim>\<open>'x'\<close> it requires \<^verbatim>\<open>]\<close> and finds a comma (unexpected symbol).
\<close>

theorem C7_quoted_union_counterexample:
  "ParseJSONPath ''$.a['x','y']'' = Inl ErrorSymbol
   \<and> JSONPath (\<lambda>bytes. Inr docXYZ) [] ''$.a['x','y']'' = Some (Inl ErrorSymbol)
   \<and> JSONPath (\<lambda>bytes. Inr docXYZ) [] ''$.a['x','w']'' = Some (Inl ErrorSymbol)"
  by code_simp

text \<open>
  C7, amended: a command of the default case is split on commas and the working result
  is replaced by the concatenation of the matches, the keys in written order and, for
  each key, the nodes of the working result in their order; a node contributes its
  child under that exact key when it is a container and has one, and nothing otherwise.
  On \<^verbatim>\<open>{"a":{"x":1,"y":2,"z":3}}\<close> the unquoted unions \<^verbatim>\<open>$.a[x,y]\<close>, \<^verbatim>\<open>$.a[y,x]\<close> and
  \<^verbatim>\<open>$.a[x,w]\<close> yield 1, 2, then 2, 1, then 1, and the quoted single key \<^verbatim>\<open>$.a['x']\<close>
  yields 1.
\<close>

theorem C7_key_union:
  "(cmd \<noteq> ''$'' \<and> cmd \<noteq> ''..'' \<and> cmd \<noteq> ''*'' \<and> \<not> Contains cmd (CHR '':'')
      \<and> \<not> HasPrefix cmd ''?('' \<longrightarrow>
      evalCommand root i cmd result =
        Some (Inr (concat (map (\<lambda>key. concat (map (keyMatches key) result))
                             (Split cmd (CHR '','')))))) 
   \<and> JSONPath (\<lambda>bytes. Inr docXYZ) bytes ''$.a[x,y]'' = Some (Inr [Scalar 1, Scalar 2])
   \<and> JSONPath (\<lambda>bytes. Inr docXYZ) bytes ''$.a[y,x]'' = Some (Inr [Scalar 2, Scalar 1])
   \<and> JSONPath (\<lambda>bytes. Inr docXYZ) bytes ''$.a[x,w]'' = Some (Inr [Scalar 1])
   \<and> JSONPath (\<lambda>bytes. Inr docXYZ) bytes ''$.a['x']'' = Some (Inr [Scalar 1])"
proof (intro conjI impI)
  show "evalCommand root i cmd result =
        Some (Inr (concat (map (\<lambda>key. concat (map (keyMatches key) result))
                             (Split cmd (CHR '','')))))"
    if "cmd \<noteq> ''$'' \<and> cmd \<noteq> ''..'' \<and> cmd \<noteq> ''*'' \<and> \<not> Contains cmd (CHR '':'')
      \<and> \<not> HasPrefix cmd ''?(''"
    using that by (intro evalCommand_keys) simp_all
  show "JSONPath (\<lambda>bytes. Inr docXYZ) bytes ''$.a[x,y]'' = Some (Inr [Scalar 1, Scalar 2])"
    by code_simp
  show "JSONPath (\<lambda>bytes. Inr docXYZ) bytes ''$.a[y,x]'' = Some (Inr [Scalar 2, Scalar 1])"
    by code_simp
  show "JSONPath (\<lambda>bytes. Inr docXYZ) bytes ''$.a[x,w]'' = Some (Inr [Scalar 1])"
    by code_simp
  show "JSONPath (\<lambda>bytes. Inr docXYZ) bytes ''$.a['x']'' = Some (Inr [Scalar 1])"
    by code_simp
qed

text \<open>
  The command \<^verbatim>\<open>a,b\<close> is of the default case: the hypothesis of the amended C7 holds
  there.
\<close>

theorem C7_key_union_witness:
  "evalCommand docXYZ 1 ''a,b'' [docXYZ, Scalar 4] =
     Some (Inr (concat (map (\<lambda>key. concat (map (keyMatches key) [docXYZ, Scalar 4]))
                          (Split ''a,b'' (CHR '','')))))"
proof -
  have "''a,b'' \<noteq> ''$'' \<and> ''a,b'' \<noteq> ''..'' \<and> ''a,b'' \<noteq> ''*'' \<and> \<not> Contains ''a,b'' (CHR '':'')
      \<and> \<not> HasPrefix ''a,b'' ''?(''"
    by code_simp
  with C7_key_union [of "''a,b''" docXYZ 1 "[docXYZ, Scalar 4]"] show ?thesis by blast
qed

subsection \<open>C8: tokenizing\<close>

text \<open>
  C8: tokenizing \<^verbatim>\<open>$..a\<close> yields \<^verbatim>\<open>$\<close>, \<^verbatim>\<open>..\<close>, \<^verbatim>\<open>a\<close>; tokenizing \<^verbatim>\<open>$['a']['b']\<close>
  and \<^verbatim>\<open>$.a.b\<close> yields \<^verbatim>\<open>$\<close>, \<^verbatim>\<open>a\<close>, \<^verbatim>\<open>b\<close>.
\<close>

theorem C8_tokenize_examples:
  "ParseJSONPath ''$..a'' = Inr [''$'', ''..'', ''a'']
   \<and> ParseJSONPath ''$['a']['b']'' = Inr [''$'', ''a'', ''b'']
   \<and> ParseJSONPath ''$.a.b'' = Inr [''$'', ''a'', ''b'']"
  by code_simp

subsection \<open>C9: a malformed slice command\<close>

text \<open>
  C9: a slice command with more than three fields, or with a field that is not empty
  and that \<^verbatim>\<open>Atoi\<close> does not read, fails with the request error, whatever the working
  result; the fold stops there, whatever commands follow; and so does \<open>JSONPath\<close> on a
  path whose commands before it evaluate without error.  An error is returned alone
  (\<open>Inl\<close>), with no node list.
\<close>

theorem C9_malformed_slice_fails:
  assumes "Contains cmd (CHR '':'')" and "sliceMalformed cmd"
  shows "evalCommand root i cmd result = Some (Inl ErrorRequest)
    \<and> evalCommands root i (cmd # rest) result = Some (Inl ErrorRequest)
    \<and> (ParseJSONPath path = Inr (pre @ cmd # rest) \<and> Unmarshal bytes = Inr root
          \<and> evalCommands root 0 pre [] = Some (Inr result)
        \<longrightarrow> JSONPath Unmarshal bytes path = Some (Inl ErrorRequest))"
proof -
  have one: "evalCommand root j cmd r = Some (Inl ErrorRequest)" for j r
    using assms by (simp add: evalCommand_slice evalSlice_malformed)
  then have fold: "evalCommands root j (cmd # rest) r = Some (Inl ErrorRequest)" for j r
    by simp
  have "JSONPath Unmarshal bytes path = Some (Inl ErrorRequest)"
    if "ParseJSONPath path = Inr (pre @ cmd # rest)" and "Unmarshal bytes = Inr root"
      and "evalCommands root 0 pre [] = Some (Inr result)"
    using that fold
    by (simp add: JSONPath_def JSONPath_run_def evalCommands_append del: evalCommands.simps)
  with one fold show ?thesis by blast
qed

text \<open>
  The command \<^verbatim>\<open>1:2:3:4\<close> has four fields: the hypotheses of C9 hold for it and for the
  path \<^verbatim>\<open>$[1:2:3:4].*\<close>.
\<close>

theorem C9_malformed_slice_fails_witness:
  "evalCommand docNumbers 2 ''1:2:3:4'' [Scalar 7] = Some (Inl ErrorRequest)
   \<and> evalCommands docNumbers 2 (''1:2:3:4'' # [''*'']) [Scalar 7] = Some (Inl ErrorRequest)
   \<and> JSONPath (\<lambda>bytes. Inr docNumbers) [] ''$[1:2:3:4].*'' = Some (Inl ErrorRequest)"
proof -
  have "Contains ''1:2:3:4'' (CHR '':'')" and "sliceMalformed ''1:2:3:4''"
    by code_simp+
  from C9_malformed_slice_fails [OF this, of docNumbers 2 "[Scalar 7]" "[''*'']"
      "''$[1:2:3:4].*''" "[''$'']" "\<lambda>bytes. Inr docNumbers" "[]"]
  have a: "evalCommand docNumbers 2 ''1:2:3:4'' [Scalar 7] = Some (Inl ErrorRequest)"
    and b: "evalCommands docNumbers 2 (''1:2:3:4'' # [''*'']) [Scalar 7] = Some (Inl ErrorRequest)"
    by blast+
  have "ParseJSONPath ''$[1:2:3:4].*'' = Inr ([''$''] @ ''1:2:3:4'' # [''*''])"
    by code_simp
  moreover have "evalCommands docNumbers 0 [''$''] [] = Some (Inr [docNumbers])"
    by code_simp
  ultimately have "JSONPath (\<lambda>bytes. Inr docNumbers) [] ''$[1:2:3:4].*'' = Some (Inl ErrorRequest)"
    using C9_malformed_slice_fails [OF \<open>Contains ''1:2:3:4'' (CHR '':'')\<close>
        \<open>sliceMalformed ''1:2:3:4''\<close>, of docNumbers 0 "[docNumbers]" "[''*'']"
        "''$[1:2:3:4].*''" "[''$'']" "\<lambda>bytes. Inr docNumbers" "[]"]
    by blast
  with a b show ?thesis by blast
qed

subsection \<open>C10: the empty working result\<close>

text \<open>
  C10, as stated: a path that parses and does not start with the root command returns
  the empty result without error.  The path \<^verbatim>\<open>[x:]\<close> parses to the one command \<^verbatim>\<open>x:\<close>,
  a slice whose first field is not a number, and \<open>JSONPath\<close> fails with the request error.
\<close>

theorem C10_not_root_first_counterexample:
  "ParseJSONPath ''[x:]'' = Inr [''x:'']
   \<and> JSONPath (\<lambda>bytes. Inr docNumbers) [] ''[x:]'' = Some (Inl ErrorRequest)"
  by code_simp

text \<open>
  C10, amended: every command but the root command at position 0 maps the empty working
  result to the empty working result, or fails with the request error when it is a
  malformed slice command.  Hence, for a document that parses and a path that parses to
  commands that do not start with the root command, \<open>JSONPath\<close> returns the empty result
  when no command is a malformed slice, and the request error otherwise; \<^verbatim>\<open>.a.b\<close>
  returns the empty result.
\<close>

theorem C10_empty_stays_empty:
  "((cmd \<noteq> ''$'' \<or> 0 < i) \<longrightarrow>
      evalCommand root i cmd [] =
        (if malformedCommand cmd then Some (Inl ErrorRequest) else Some (Inr [])))
   \<and> (ParseJSONPath path = Inr commands \<and> (commands = [] \<or> hd commands \<noteq> ''$'')
        \<and> Unmarshal bytes = Inr root \<longrightarrow>
      JSONPath Unmarshal bytes path =
        (if list_ex malformedCommand commands then Some (Inl ErrorRequest)
         else Some (Inr [])))
   \<and> JSONPath (\<lambda>bytes. Inr docPrice) bytes ''.a.b'' = Some (Inr [])"
proof (intro conjI impI)
  show "evalCommand root i cmd [] =
        (if malformedCommand cmd then Some (Inl ErrorRequest) else Some (Inr []))"
    if "cmd \<noteq> ''$'' \<or> 0 < i"
    using that by (rule evalCommand_empty)
  show "JSONPath Unmarshal bytes path =
        (if list_ex malformedCommand commands then Some (Inl ErrorRequest)
         else Some (Inr []))"
    if "ParseJSONPath path = Inr commands \<and> (commands = [] \<or> hd commands \<noteq> ''$'')
        \<and> Unmarshal bytes = Inr root"
  proof -
    from that have "commands = [] \<or> hd commands \<noteq> ''$'' \<or> 0 < (0 :: nat)" by blast
    from evalCommands_empty [OF this, of root] that show ?thesis
      by (simp add: JSONPath_def JSONPath_run_def)
  qed
  show "JSONPath (\<lambda>bytes. Inr docPrice) bytes ''.a.b'' = Some (Inr [])"
    by code_simp
qed

text \<open>
  The hypotheses of the amended C10 hold for the command \<^verbatim>\<open>a\<close> and for the path
  \<^verbatim>\<open>.a[0:1:0]\<close>, whose zero step does no harm on the empty working result.
\<close>

theorem C10_empty_stays_empty_witness:
  "evalCommand docPrice 0 ''a'' [] = Some (Inr [])
   \<and> JSONPath (\<lambda>bytes. Inr docPrice) [] ''.a[0:1:0]'' = Some (Inr [])"
proof -
  have c: "''a'' \<noteq> ''$'' \<or> 0 < (0 :: nat)" and m: "\<not> malformedCommand ''a''"
    by code_simp+
  have p: "ParseJSONPath ''.a[0:1:0]'' = Inr [''a'', ''0:1:0'']"
    and h: "[''a'', ''0:1:0''] = [] \<or> hd [''a'', ''0:1:0''] \<noteq> ''$''"
    and l: "\<not> list_ex malformedCommand [''a'', ''0:1:0'']"
    and u: "Inr docPrice = (Inr docPrice :: error + int Node)"
    by code_simp+
  from C10_empty_stays_empty [of "''a''" 0 docPrice "''.a[0:1:0]''" "[''a'', ''0:1:0'']"
      "\<lambda>bytes. Inr docPrice" "[]"] c m p h l u
  show ?thesis by simp
qed

end
